theory Spec2Isabelle
  imports Complex_Main "HOL-Library.Log_Nat"
begin

section \<open>Data model\<close>

text \<open>
  Modelled from the spec: the \<^verbatim>\<open>Transaction\<close> type (\<^verbatim>\<open>./Transaction\<close> is imported by
  \<^verbatim>\<open>TransactionStore.ts\<close> but is not among the sources). Section 3 of the spec gives its four
  fields; they are also the four fields that \<^verbatim>\<open>RevertInvalidTransactions\<close> copies into the
  first-valid request. JavaScript numbers are modelled as unbounded integers.
\<close>

record Transaction =
  transactionNumber :: int
  transactionTime :: int
  transactionTimeHash :: string
  anchorFileHash :: string

text \<open>
  The errors that can be thrown inside one processing cycle: the \<^verbatim>\<open>Error\<close> raised by
  \<^verbatim>\<open>removeTransactionsLaterThan\<close> (it carries the number that could not be located), and a
  rejected promise of the request handler.
\<close>

datatype error = UnableToLocateTransaction int | RequestFailed

section \<open>InMemoryTransactionStore\<close>

text \<open>
  The private field \<^verbatim>\<open>transactions: Transaction[]\<close> is the whole state of the store, so the
  store is modelled as the list itself and every method passes it explicitly.
\<close>

type_synonym TransactionStore = "Transaction list"

definition getLastTransaction :: "TransactionStore \<Rightarrow> Transaction option" where
  "getLastTransaction transactions =
     (if length transactions = 0 then None
      else Some (transactions ! (length transactions - 1)))"

definition addTransaction :: "Transaction \<Rightarrow> TransactionStore \<Rightarrow> TransactionStore" where
  "addTransaction transaction transactions =
     (case getLastTransaction transactions of
        None \<Rightarrow> transactions @ [transaction]
      | Some lastTransaction \<Rightarrow>
          if transactionNumber lastTransaction \<ge> transactionNumber transaction
          then transactions
          else transactions @ [transaction])"

text \<open>
  The loop of \<^verbatim>\<open>getExponentiallySpacedTransactions\<close>, on its three variables (the index, the
  distance and the list built so far). Nothing in the loop itself bounds the distance from below,
  and with a distance that is not positive the loop would run forever, so the loop is a partial
  function: \<open>None\<close> is "does not return". The index only decreases from \<open>length - 1\<close>, so every
  read \<open>transactions[index]\<close> that happens is within the array.
\<close>

partial_function (option) exponentiallySpacedLoop ::
  "TransactionStore \<Rightarrow> int \<Rightarrow> int \<Rightarrow> Transaction list \<Rightarrow> Transaction list option" where
  "exponentiallySpacedLoop transactions index distance exponentiallySpacedTransactions =
     (if index \<ge> 0
      then exponentiallySpacedLoop transactions (index - distance) (distance * 2)
             (exponentiallySpacedTransactions @ [transactions ! nat index])
      else Some exponentiallySpacedTransactions)"

definition getExponentiallySpacedTransactions ::
  "TransactionStore \<Rightarrow> Transaction list option" where
  "getExponentiallySpacedTransactions transactions =
     exponentiallySpacedLoop transactions (int (length transactions) - 1) 1 []"

text \<open>
  Modelled from the spec: \<^verbatim>\<open>SortedArray.binarySearch\<close> (\<^verbatim>\<open>./lib/SortedArray\<close> is imported by
  \<^verbatim>\<open>TransactionStore.ts\<close> but is not among the sources). The spec (4.1) says that the retain
  boundary is located "by binary search over the strictly-increasing transactionNumber sequence"
  and that a number which "does not correspond to an existing stored transaction" is not found.
  The model is the textbook search between an inclusive lower and upper index, driven by the
  sign of the comparison callback, returning the index found or \<open>None\<close> for \<^verbatim>\<open>undefined\<close>.
\<close>

function binarySearchLoop ::
  "'a list \<Rightarrow> 'b \<Rightarrow> ('a \<Rightarrow> 'b \<Rightarrow> int) \<Rightarrow> int \<Rightarrow> int \<Rightarrow> nat option" where
  "binarySearchLoop sortedArray searchItem compare lowerBoundaryIndex upperBoundaryIndex =
     (if lowerBoundaryIndex \<le> upperBoundaryIndex
      then (let middleIndex = (lowerBoundaryIndex + upperBoundaryIndex) div 2;
                comparisonResult = compare (sortedArray ! nat middleIndex) searchItem
            in if comparisonResult > 0
               then binarySearchLoop sortedArray searchItem compare
                      lowerBoundaryIndex (middleIndex - 1)
               else if comparisonResult < 0
               then binarySearchLoop sortedArray searchItem compare
                      (middleIndex + 1) upperBoundaryIndex
               else Some (nat middleIndex))
      else None)"
  by pat_completeness auto
termination
  by (relation "measure (\<lambda>(sortedArray, searchItem, compare, lowerBoundaryIndex, upperBoundaryIndex).
        nat (upperBoundaryIndex - lowerBoundaryIndex + 1))") auto

definition binarySearch :: "'a list \<Rightarrow> 'b \<Rightarrow> ('a \<Rightarrow> 'b \<Rightarrow> int) \<Rightarrow> nat option" where
  "binarySearch sortedArray searchItem compare =
     binarySearchLoop sortedArray searchItem compare 0 (int (length sortedArray) - 1)"

definition compareTransactionAndTransactionNumber :: "Transaction \<Rightarrow> int \<Rightarrow> int" where
  "compareTransactionAndTransactionNumber transaction n = transactionNumber transaction - n"

text \<open>
  \<^verbatim>\<open>removeTransactionsLaterThan\<close>: the optional argument is an \<open>int option\<close>, the thrown
  \<^verbatim>\<open>Error\<close> is the left injection. The error is thrown before \<^verbatim>\<open>this.transactions\<close> is
  touched, so a failed call leaves the store as it was. \<^verbatim>\<open>splice(i + 1)\<close> with a single
  argument deletes everything from position \<open>i + 1\<close> on, which is \<open>take (i + 1)\<close>.
\<close>

definition removeTransactionsLaterThan ::
  "int option \<Rightarrow> TransactionStore \<Rightarrow> error + TransactionStore" where
  "removeTransactionsLaterThan n transactions =
     (case n of
        None \<Rightarrow> Inr []
      | Some number \<Rightarrow>
          (case binarySearch transactions number compareTransactionAndTransactionNumber of
             None \<Rightarrow> Inl (UnableToLocateTransaction number)
           | Some bestKnownValidRecentTransactionIndex \<Rightarrow>
               Inr (take (bestKnownValidRecentTransactionIndex + 1) transactions)))"

text \<open>A transaction to run the operations on: the number given, the other fields fixed.\<close>

definition sampleTransaction :: "int \<Rightarrow> Transaction" where
  "sampleTransaction n =
     \<lparr>transactionNumber = n, transactionTime = 100 + n,
      transactionTimeHash = ''hash'', anchorFileHash = ''anchor''\<rparr>"

text \<open>
  A sequence of calls on one store, for the invariants of the log. A call of
  \<^verbatim>\<open>removeTransactionsLaterThan\<close> that throws has not touched the store, so the next call
  finds the store as the failed call found it.
\<close>

datatype StoreCall =
    AddTransaction Transaction
  | RemoveTransactionsLaterThan "int option"

definition performCall :: "StoreCall \<Rightarrow> TransactionStore \<Rightarrow> TransactionStore" where
  "performCall call transactions =
     (case call of
        AddTransaction transaction \<Rightarrow> addTransaction transaction transactions
      | RemoveTransactionsLaterThan n \<Rightarrow>
          (case removeTransactionsLaterThan n transactions of
             Inl thrown \<Rightarrow> transactions
           | Inr transactions' \<Rightarrow> transactions'))"

fun performCalls :: "StoreCall list \<Rightarrow> TransactionStore \<Rightarrow> TransactionStore" where
  "performCalls [] transactions = transactions"
| "performCalls (call # calls) transactions = performCalls calls (performCall call transactions)"

section \<open>BlockchainService\<close>

text \<open>
  Modelled from the spec: the responses of the request handler (\<^verbatim>\<open>./RequestHandler\<close> and
  \<^verbatim>\<open>./Response\<close> are imported by the service but are not among the sources). Section 6 of the
  spec gives the shapes: a fetch answers \<^verbatim>\<open>Succeeded\<close> with \<^verbatim>\<open>transactions\<close> and
  \<^verbatim>\<open>moreTransactions\<close>, or \<^verbatim>\<open>BadRequest\<close> with a \<^verbatim>\<open>code\<close>, or some other status; a
  first-valid query answers \<^verbatim>\<open>Succeeded\<close> with one transaction, or some other status.
\<close>

datatype FetchResponse =
    FetchSucceeded "Transaction list" bool
  | FetchBadRequest string
  | FetchOtherStatus

datatype FirstValidResponse =
    FirstValidSucceeded Transaction
  | FirstValidOtherStatus

text \<open>
  The request handler is the upstream ledger seen from the service: it has a state of its own
  (\<open>'u\<close>), each call may change it, and a call may throw instead of answering.
\<close>

record 'u RequestHandler =
  handleFetchRequest ::
    "'u \<Rightarrow> int option \<Rightarrow> string option \<Rightarrow> (error + FetchResponse) \<times> 'u"
  handleFirstValidRequest ::
    "'u \<Rightarrow> Transaction list \<Rightarrow> (error + FirstValidResponse) \<times> 'u"

datatype request =
    FetchRequest "int option" "string option"
  | FirstValidRequest "Transaction list"

text \<open>
  The state that \<^verbatim>\<open>processTransactions\<close> and \<^verbatim>\<open>RevertInvalidTransactions\<close> read and write:
  the two private fields of the service, the state of the upstream, the two local variables of
  \<^verbatim>\<open>processTransactions\<close>, and two histories that the code does not hold but produces: the
  requests sent to the handler, in order, and what \<^verbatim>\<open>console.error\<close> printed in the
  \<^verbatim>\<open>catch\<close> of the cycle. The \<^verbatim>\<open>console.info\<close> progress lines are not modelled.
\<close>

record 'u BlockchainService =
  transactionStore :: TransactionStore
  lastKnownTransaction :: "Transaction option"
  upstream :: 'u
  blockReorganizationDetected :: bool
  moreTransactions :: bool
  requests :: "request list"
  consoleErrors :: "error list"

text \<open>
  A statement block either runs to its end or throws; in both cases the state it has reached
  stays, since the service object outlives the exception.
\<close>

datatype 's outcome = Completed (reached: 's) | Threw error (reached: 's)

definition startPeriodicProcessing :: "'u BlockchainService \<Rightarrow> 'u BlockchainService" where
  "startPeriodicProcessing s =
     s\<lparr>lastKnownTransaction := getLastTransaction (transactionStore s)\<rparr>"

text \<open>
  \<^verbatim>\<open>RevertInvalidTransactions\<close>. The request body is the list of the four fields of every
  checkpoint (serialising it to a buffer is the handler's business). Only a \<^verbatim>\<open>Succeeded\<close>
  answer has an effect; any other status falls through the \<^verbatim>\<open>if\<close>.
\<close>

definition RevertInvalidTransactions ::
  "'u RequestHandler \<Rightarrow> 'u BlockchainService \<Rightarrow> 'u BlockchainService outcome option" where
  "RevertInvalidTransactions handler s =
     (case getExponentiallySpacedTransactions (transactionStore s) of
        None \<Rightarrow> None
      | Some exponentiallySpacedTransactions \<Rightarrow>
          (let transactionList =
                 map (\<lambda>transaction.
                        \<lparr>transactionNumber = transactionNumber transaction,
                         transactionTime = transactionTime transaction,
                         transactionTimeHash = transactionTimeHash transaction,
                         anchorFileHash = anchorFileHash transaction\<rparr>)
                     exponentiallySpacedTransactions;
               answer = handleFirstValidRequest handler (upstream s) transactionList;
               s1 = s\<lparr>upstream := snd answer,
                      requests := requests s @ [FirstValidRequest transactionList]\<rparr>
           in case fst answer of
                Inl thrown \<Rightarrow> Some (Threw thrown s1)
              | Inr FirstValidOtherStatus \<Rightarrow> Some (Completed s1)
              | Inr (FirstValidSucceeded bestKnownValidRecentTransactionBody) \<Rightarrow>
                  (case removeTransactionsLaterThan
                          (Some (transactionNumber bestKnownValidRecentTransactionBody))
                          (transactionStore s1) of
                     Inl thrown \<Rightarrow> Some (Threw thrown s1)
                   | Inr transactions' \<Rightarrow>
                       Some (Completed
                         (s1\<lparr>transactionStore := transactions',
                             lastKnownTransaction :=
                               Some bestKnownValidRecentTransactionBody\<rparr>)))))"

text \<open>The body of the \<^verbatim>\<open>for\<close> loop over the fetched transactions, and the loop.\<close>

definition storeFetchedTransaction ::
  "Transaction \<Rightarrow> 'u BlockchainService \<Rightarrow> 'u BlockchainService" where
  "storeFetchedTransaction transaction s =
     (let transactions' = addTransaction transaction (transactionStore s)
      in s\<lparr>transactionStore := transactions',
           lastKnownTransaction := getLastTransaction transactions'\<rparr>)"

fun storeFetchedTransactions ::
  "Transaction list \<Rightarrow> 'u BlockchainService \<Rightarrow> 'u BlockchainService" where
  "storeFetchedTransactions [] s = s"
| "storeFetchedTransactions (transaction # transactions) s =
     storeFetchedTransactions transactions (storeFetchedTransaction transaction s)"

text \<open>
  One pass through the body of the \<^verbatim>\<open>do ... while\<close> loop: the fetch, the handling of its
  answer, and the revert when the flag is up. The flag is tested after the answer has been
  handled, whatever the answer was. The \<^verbatim>\<open>if ... else if\<close> on the status of the answer and
  the two constants computed at the top of the body are functions of the state.
\<close>

definition handleReadResult ::
  "FetchResponse \<Rightarrow> 'u BlockchainService \<Rightarrow> 'u BlockchainService" where
  "handleReadResult readResult s =
     (case readResult of
        FetchSucceeded transactions moreInBody \<Rightarrow>
          storeFetchedTransactions transactions (s\<lparr>moreTransactions := moreInBody\<rparr>)
      | FetchBadRequest code \<Rightarrow>
          if code = ''invalid_transaction_number_or_time_hash''
          then s\<lparr>blockReorganizationDetected := True\<rparr>
          else s
      | FetchOtherStatus \<Rightarrow> s)"

definition lastKnownTransactionNumber :: "'u BlockchainService \<Rightarrow> int option" where
  "lastKnownTransactionNumber s =
     (case lastKnownTransaction s of
        Some t \<Rightarrow> Some (transactionNumber t) | None \<Rightarrow> None)"

definition lastKnownTransactionTimeHash :: "'u BlockchainService \<Rightarrow> string option" where
  "lastKnownTransactionTimeHash s =
     (case lastKnownTransaction s of
        Some t \<Rightarrow> Some (transactionTimeHash t) | None \<Rightarrow> None)"

definition fetchIteration ::
  "'u RequestHandler \<Rightarrow> 'u BlockchainService \<Rightarrow> 'u BlockchainService outcome option" where
  "fetchIteration handler s =
     (let answer = handleFetchRequest handler (upstream s)
                     (lastKnownTransactionNumber s) (lastKnownTransactionTimeHash s);
          s1 = s\<lparr>upstream := snd answer,
                 requests := requests s @
                   [FetchRequest (lastKnownTransactionNumber s)
                      (lastKnownTransactionTimeHash s)]\<rparr>
      in case fst answer of
           Inl thrown \<Rightarrow> Some (Threw thrown s1)
         | Inr readResult \<Rightarrow>
             (let s2 = handleReadResult readResult s1
              in if blockReorganizationDetected s2
                 then RevertInvalidTransactions handler s2
                 else Some (Completed s2)))"

text \<open>
  The \<^verbatim>\<open>do ... while (moreTransactions)\<close> loop. An upstream that always answers
  \<^verbatim>\<open>moreTransactions = true\<close> keeps it running forever, so it is a partial function.
\<close>

partial_function (option) fetchLoop ::
  "'u RequestHandler \<Rightarrow> 'u BlockchainService \<Rightarrow> 'u BlockchainService outcome option" where
  "fetchLoop handler s =
     (case fetchIteration handler s of
        None \<Rightarrow> None
      | Some (Threw thrown s') \<Rightarrow> Some (Threw thrown s')
      | Some (Completed s') \<Rightarrow>
          if moreTransactions s' then fetchLoop handler s' else Some (Completed s'))"

text \<open>
  One cycle: \<^verbatim>\<open>processTransactions\<close> up to its \<^verbatim>\<open>finally\<close> block. Both local variables start
  as \<^verbatim>\<open>false\<close>; whatever is thrown inside is caught and printed with \<^verbatim>\<open>console.error\<close>.
  The \<^verbatim>\<open>finally\<close> block only schedules the next cycle on a timer and is not modelled.
\<close>

definition processTransactions ::
  "'u RequestHandler \<Rightarrow> 'u BlockchainService \<Rightarrow> 'u BlockchainService option" where
  "processTransactions handler s =
     (case fetchLoop handler
             (s\<lparr>blockReorganizationDetected := False, moreTransactions := False\<rparr>) of
        None \<Rightarrow> None
      | Some (Completed s') \<Rightarrow> Some s'
      | Some (Threw thrown s') \<Rightarrow> Some (s'\<lparr>consoleErrors := consoleErrors s' @ [thrown]\<rparr>))"

text \<open>
  An upstream to run the service against: it answers the fetches from a script, one answer per
  call (an empty page once the script is used up), and gives every first-valid query the same
  answer. Its state is what remains of the script.
\<close>

definition scriptedHandler :: "FirstValidResponse \<Rightarrow> FetchResponse list RequestHandler" where
  "scriptedHandler firstValidAnswer =
     \<lparr>handleFetchRequest =
        (\<lambda>script afterNumber afterTimeHash.
           case script of
             [] \<Rightarrow> (Inr (FetchSucceeded [] False), [])
           | answer # script' \<Rightarrow> (Inr answer, script')),
      handleFirstValidRequest = (\<lambda>script checkpoints. (Inr firstValidAnswer, script))\<rparr>"

text \<open>
  A service as \<^verbatim>\<open>startPeriodicProcessing\<close> leaves it before the first cycle, on a given log
  and upstream.
\<close>

definition startedService :: "TransactionStore \<Rightarrow> 'u \<Rightarrow> 'u BlockchainService" where
  "startedService transactions u =
     startPeriodicProcessing
       \<lparr>transactionStore = transactions, lastKnownTransaction = None, upstream = u,
        blockReorganizationDetected = False, moreTransactions = False,
        requests = [], consoleErrors = []\<rparr>"

text \<open>
  Two predicates for the invariants of a cycle: the state of the service in which the log is
  strictly increasing and \<^verbatim>\<open>lastKnownTransaction\<close> is its last transaction, and the upstreams
  whose first-valid answers are always one of the checkpoints of the request.
\<close>

definition cacheInvariant :: "'u BlockchainService \<Rightarrow> bool" where
  "cacheInvariant s \<longleftrightarrow>
     sorted_wrt (<) (map transactionNumber (transactionStore s))
     \<and> lastKnownTransaction s = getLastTransaction (transactionStore s)"

definition answersFromCheckpoints :: "'u RequestHandler \<Rightarrow> bool" where
  "answersFromCheckpoints handler \<longleftrightarrow>
     (\<forall>u checkpoints valid.
        fst (handleFirstValidRequest handler u checkpoints) = Inr (FirstValidSucceeded valid)
        \<longrightarrow> valid \<in> set checkpoints)"

section \<open>Idempotent append\<close>

lemma sampleTransaction_number: "transactionNumber (sampleTransaction n) = n"
  by (simp add: sampleTransaction_def)

lemma sampleTransaction_timeHash: "transactionTimeHash (sampleTransaction n) = ''hash''"
  by (simp add: sampleTransaction_def)

lemma getLastTransaction_Nil: "getLastTransaction [] = None"
  by (simp add: getLastTransaction_def)

lemma getLastTransaction_last:
  "transactions \<noteq> [] \<Longrightarrow> getLastTransaction transactions = Some (last transactions)"
  by (simp add: getLastTransaction_def last_conv_nth)

lemma addTransaction_cases:
  "addTransaction t transactions =
     (if transactions \<noteq> [] \<and> transactionNumber (last transactions) \<ge> transactionNumber t
      then transactions else transactions @ [t])"
  by (cases "transactions = []")
     (simp_all add: addTransaction_def getLastTransaction_Nil getLastTransaction_last)

text \<open>
  C2. \<^verbatim>\<open>addTransaction\<close> leaves a non-empty log whose newest transaction has a number at least
  the argument's as it is, and appends the argument otherwise; so adding the same transaction
  again, or an older one, after a transaction has been added changes nothing.
\<close>

theorem addTransaction_idempotent:
  "addTransaction t transactions =
     (if transactions \<noteq> [] \<and> transactionNumber (last transactions) \<ge> transactionNumber t
      then transactions else transactions @ [t])
   \<and> addTransaction t (addTransaction t transactions) = addTransaction t transactions
   \<and> (transactionNumber older \<le> transactionNumber t
      \<longrightarrow> addTransaction older (addTransaction t transactions) = addTransaction t transactions)"
  by (auto simp: addTransaction_cases)

theorem addTransaction_idempotent_witness:
  "addTransaction (sampleTransaction 3) [sampleTransaction 1] = [sampleTransaction 1, sampleTransaction 3]
   \<and> addTransaction (sampleTransaction 3) (addTransaction (sampleTransaction 3) [sampleTransaction 1])
       = [sampleTransaction 1, sampleTransaction 3]
   \<and> transactionNumber (sampleTransaction 2) \<le> transactionNumber (sampleTransaction 3)
   \<and> addTransaction (sampleTransaction 2) (addTransaction (sampleTransaction 3) [sampleTransaction 1])
       = [sampleTransaction 1, sampleTransaction 3]"
proof -
  note inst = addTransaction_idempotent
                [of "sampleTransaction 3" "[sampleTransaction 1]" "sampleTransaction 2"]
  have older: "transactionNumber (sampleTransaction 2) \<le> transactionNumber (sampleTransaction 3)"
    by (simp add: sampleTransaction_number)
  have once: "addTransaction (sampleTransaction 3) [sampleTransaction 1]
                = [sampleTransaction 1, sampleTransaction 3]"
    using conjunct1[OF inst] by (simp add: sampleTransaction_number)
  have twice: "addTransaction (sampleTransaction 3) (addTransaction (sampleTransaction 3) [sampleTransaction 1])
                = addTransaction (sampleTransaction 3) [sampleTransaction 1]"
    using inst by blast
  have old: "addTransaction (sampleTransaction 2) (addTransaction (sampleTransaction 3) [sampleTransaction 1])
                = addTransaction (sampleTransaction 3) [sampleTransaction 1]"
    using inst older by blast
  show ?thesis
    using once trans[OF twice once] older trans[OF old once] by blast
qed

section \<open>Truncation\<close>

lemma binarySearchLoop_Some:
  "0 \<le> lo \<Longrightarrow> hi < int (length xs) \<Longrightarrow> binarySearchLoop xs n cmp lo hi = Some i
   \<Longrightarrow> i < length xs \<and> cmp (xs ! i) n = 0 \<and> lo \<le> int i \<and> int i \<le> hi"
proof (induction xs n cmp lo hi rule: binarySearchLoop.induct)
  case (1 xs n cmp lo hi)
  show ?case
  proof (cases "lo \<le> hi")
    case False
    with "1.prems" show ?thesis by simp
  next
    case True
    define mid where "mid = (lo + hi) div 2"
    have mid: "lo \<le> mid" "mid \<le> hi" using True by (auto simp: mid_def)
    consider (gt) "cmp (xs ! nat mid) n > 0" | (lt) "cmp (xs ! nat mid) n < 0" | (eq) "cmp (xs ! nat mid) n = 0"
      by linarith
    then show ?thesis
    proof cases
      case gt
      with True "1.prems" have "binarySearchLoop xs n cmp lo (mid - 1) = Some i"
        by (simp add: mid_def Let_def)
      with "1.IH"(1)[OF True mid_def refl] gt "1.prems" mid show ?thesis
        by auto
    next
      case lt
      with True "1.prems" have "binarySearchLoop xs n cmp (mid + 1) hi = Some i"
        by (simp add: mid_def Let_def)
      with "1.IH"(2)[OF True mid_def refl] lt "1.prems" mid show ?thesis
        by auto
    next
      case eq
      with True "1.prems" have "i = nat mid"
        by (simp add: mid_def Let_def)
      with eq mid "1.prems" show ?thesis by auto
    qed
  qed
qed

lemma sorted_numbers_nth:
  "sorted_wrt (<) (map transactionNumber xs) \<Longrightarrow> i < j \<Longrightarrow> j < length xs
   \<Longrightarrow> transactionNumber (xs ! i) < transactionNumber (xs ! j)"
  by (simp add: sorted_wrt_iff_nth_less)

lemma sorted_numbers_nth_le:
  "sorted_wrt (<) (map transactionNumber xs) \<Longrightarrow> i \<le> j \<Longrightarrow> j < length xs
   \<Longrightarrow> transactionNumber (xs ! i) \<le> transactionNumber (xs ! j)"
  using sorted_numbers_nth[of xs i j] by (cases "i = j") auto

lemma binarySearchLoop_finds:
  "sorted_wrt (<) (map transactionNumber xs) \<Longrightarrow> 0 \<le> lo \<Longrightarrow> hi < int (length xs)
   \<Longrightarrow> lo \<le> int k \<Longrightarrow> int k \<le> hi \<Longrightarrow> transactionNumber (xs ! k) = n
   \<Longrightarrow> binarySearchLoop xs n compareTransactionAndTransactionNumber lo hi = Some k"
proof (induction xs n compareTransactionAndTransactionNumber lo hi rule: binarySearchLoop.induct)
  case (1 xs n lo hi)
  define mid where "mid = (lo + hi) div 2"
  have lohi: "lo \<le> hi" using "1.prems" by linarith
  have mid: "lo \<le> mid" "mid \<le> hi" using lohi by (auto simp: mid_def)
  have midlen: "nat mid < length xs" using mid "1.prems" by auto
  have klen: "k < length xs" using "1.prems" by auto
  let ?c = "compareTransactionAndTransactionNumber (xs ! nat mid) n"
  consider (gt) "?c > 0" | (lt) "?c < 0" | (eq) "?c = 0"
    by linarith
  then show ?case
  proof cases
    case gt
    then have "transactionNumber (xs ! k) < transactionNumber (xs ! nat mid)"
      using "1.prems" by (simp add: compareTransactionAndTransactionNumber_def)
    then have "\<not> nat mid \<le> k"
      using sorted_numbers_nth_le[OF "1.prems"(1) _ klen, of "nat mid"] by auto
    then have "int k \<le> mid - 1" by linarith
    from "1.hyps"(1)[OF lohi mid_def refl gt "1.prems"(1,2) _ "1.prems"(4) this "1.prems"(6)]
      "1.prems"(3) mid
    have "binarySearchLoop xs n compareTransactionAndTransactionNumber lo (mid - 1) = Some k"
      by simp
    with gt lohi show ?thesis
      by (subst binarySearchLoop.simps) (simp add: mid_def Let_def)
  next
    case lt
    then have "transactionNumber (xs ! nat mid) < transactionNumber (xs ! k)"
      using "1.prems" by (simp add: compareTransactionAndTransactionNumber_def)
    then have "\<not> k \<le> nat mid"
      using sorted_numbers_nth_le[OF "1.prems"(1) _ midlen, of k] by auto
    then have "mid + 1 \<le> int k" by linarith
    from "1.hyps"(2)[OF lohi mid_def refl _ lt "1.prems"(1) _ "1.prems"(3) this "1.prems"(5,6)]
      lt "1.prems"(2) mid
    have "binarySearchLoop xs n compareTransactionAndTransactionNumber (mid + 1) hi = Some k"
      by simp
    with lt lohi show ?thesis
      by (subst binarySearchLoop.simps) (simp add: mid_def Let_def)
  next
    case eq
    then have e: "transactionNumber (xs ! nat mid) = transactionNumber (xs ! k)"
      using "1.prems" by (simp add: compareTransactionAndTransactionNumber_def)
    have "nat mid = k"
    proof (rule ccontr)
      assume "nat mid \<noteq> k"
      then consider "nat mid < k" | "k < nat mid" by linarith
      then show False
        using sorted_numbers_nth[OF "1.prems"(1) _ klen, of "nat mid"]
              sorted_numbers_nth[OF "1.prems"(1) _ midlen, of k] e by cases auto
    qed
    with eq lohi show ?thesis
      by (subst binarySearchLoop.simps) (simp add: mid_def Let_def)
  qed
qed

lemma take_eq_filter_numbers:
  assumes "sorted_wrt (<) (map transactionNumber xs)" "i < length xs"
  shows "take (Suc i) xs = filter (\<lambda>t. transactionNumber t \<le> transactionNumber (xs ! i)) xs"
proof -
  let ?P = "\<lambda>t. transactionNumber t \<le> transactionNumber (xs ! i)"
  have a: "\<forall>t \<in> set (take (Suc i) xs). ?P t"
  proof
    fix t assume "t \<in> set (take (Suc i) xs)"
    then obtain j where "j < Suc i" "j < length xs" "t = xs ! j"
      by (auto simp: in_set_conv_nth)
    then show "?P t" using sorted_numbers_nth_le[OF assms(1) _ assms(2), of j] by simp
  qed
  have b: "\<forall>t \<in> set (drop (Suc i) xs). \<not> ?P t"
  proof
    fix t assume "t \<in> set (drop (Suc i) xs)"
    then obtain j where "j < length xs - Suc i" "t = xs ! (Suc i + j)"
      by (auto simp: in_set_conv_nth)
    moreover from this have "Suc i + j < length xs" by linarith
    ultimately show "\<not> ?P t" using sorted_numbers_nth[OF assms(1), of i "Suc i + j"] by auto
  qed
  have "filter ?P xs = filter ?P (take (Suc i) xs @ drop (Suc i) xs)" by simp
  also have "\<dots> = filter ?P (take (Suc i) xs) @ filter ?P (drop (Suc i) xs)"
    by (rule filter_append)
  also have "\<dots> = take (Suc i) xs" using a b by (simp add: filter_id_conv filter_empty_conv)
  finally show ?thesis by simp
qed

lemma binarySearch_Some:
  "binarySearch xs n cmp = Some i \<Longrightarrow> i < length xs \<and> cmp (xs ! i) n = 0"
  using binarySearchLoop_Some[of 0 "int (length xs) - 1" xs n cmp i]
  by (simp add: binarySearch_def)

lemma binarySearch_finds:
  "sorted_wrt (<) (map transactionNumber xs) \<Longrightarrow> k < length xs
   \<Longrightarrow> binarySearch xs (transactionNumber (xs ! k)) compareTransactionAndTransactionNumber = Some k"
  using binarySearchLoop_finds[of xs 0 "int (length xs) - 1" k "transactionNumber (xs ! k)"]
  by (simp add: binarySearch_def)

lemma removeTransactionsLaterThan_at_index:
  "sorted_wrt (<) (map transactionNumber xs) \<Longrightarrow> k < length xs
   \<Longrightarrow> removeTransactionsLaterThan (Some (transactionNumber (xs ! k))) xs = Inr (take (Suc k) xs)"
  by (simp add: removeTransactionsLaterThan_def binarySearch_finds)

lemma removeTransactionsLaterThan_prefix:
  "removeTransactionsLaterThan n xs = Inr ys \<Longrightarrow> \<exists>k. ys = take k xs"
  by (auto simp: removeTransactionsLaterThan_def split: option.splits intro: exI[of _ 0])

text \<open>
  C1. On a log whose transaction numbers are strictly increasing, truncating at a number that
  some stored transaction carries keeps exactly the stored transactions whose number is at most
  that number, in their order; truncating with no number empties the log.
\<close>

theorem removeTransactionsLaterThan_retains:
  "(sorted_wrt (<) (map transactionNumber transactions)
      \<and> n \<in> transactionNumber ` set transactions
    \<longrightarrow> removeTransactionsLaterThan (Some n) transactions
          = Inr (filter (\<lambda>t. transactionNumber t \<le> n) transactions))
   \<and> removeTransactionsLaterThan None transactions = Inr []"
proof (intro conjI impI)
  assume a: "sorted_wrt (<) (map transactionNumber transactions)
      \<and> n \<in> transactionNumber ` set transactions"
  then obtain k where k: "k < length transactions" "transactionNumber (transactions ! k) = n"
    by (auto simp: in_set_conv_nth)
  from a k removeTransactionsLaterThan_at_index[of transactions k]
  have "removeTransactionsLaterThan (Some n) transactions = Inr (take (Suc k) transactions)"
    by simp
  also have "take (Suc k) transactions = filter (\<lambda>t. transactionNumber t \<le> n) transactions"
    using take_eq_filter_numbers[of transactions k] a k by simp
  finally show "removeTransactionsLaterThan (Some n) transactions
          = Inr (filter (\<lambda>t. transactionNumber t \<le> n) transactions)" .
next
  show "removeTransactionsLaterThan None transactions = Inr []"
    by (simp add: removeTransactionsLaterThan_def)
qed

theorem removeTransactionsLaterThan_retains_witness:
  "sorted_wrt (<) (map transactionNumber [sampleTransaction 1, sampleTransaction 2, sampleTransaction 4])
   \<and> 2 \<in> transactionNumber ` set [sampleTransaction 1, sampleTransaction 2, sampleTransaction 4]
   \<and> removeTransactionsLaterThan (Some 2) [sampleTransaction 1, sampleTransaction 2, sampleTransaction 4]
       = Inr [sampleTransaction 1, sampleTransaction 2]
   \<and> removeTransactionsLaterThan None [sampleTransaction 1, sampleTransaction 2, sampleTransaction 4]
       = Inr []"
  using removeTransactionsLaterThan_retains
          [of "[sampleTransaction 1, sampleTransaction 2, sampleTransaction 4]" 2]
  by (simp add: sampleTransaction_def)

text \<open>
  C7. Whatever the log holds (the empty log included), truncating at a number that no stored
  transaction carries throws, and the error names that number.
\<close>

theorem removeTransactionsLaterThan_throws:
  "\<forall>t \<in> set transactions. transactionNumber t \<noteq> n
   \<Longrightarrow> removeTransactionsLaterThan (Some n) transactions = Inl (UnableToLocateTransaction n)"
proof (cases "binarySearch transactions n compareTransactionAndTransactionNumber")
  case None
  then show ?thesis by (simp add: removeTransactionsLaterThan_def)
next
  case (Some i)
  assume absent: "\<forall>t \<in> set transactions. transactionNumber t \<noteq> n"
  from binarySearch_Some[OF Some]
  have "i < length transactions" "transactionNumber (transactions ! i) = n"
    by (simp_all add: compareTransactionAndTransactionNumber_def)
  with absent show ?thesis by (metis nth_mem)
qed

theorem removeTransactionsLaterThan_throws_witness:
  "removeTransactionsLaterThan (Some 3) [sampleTransaction 1, sampleTransaction 2, sampleTransaction 4]
     = Inl (UnableToLocateTransaction 3)
   \<and> removeTransactionsLaterThan (Some 3) [] = Inl (UnableToLocateTransaction 3)"
  using removeTransactionsLaterThan_throws
          [of "[sampleTransaction 1, sampleTransaction 2, sampleTransaction 4]" 3]
        removeTransactionsLaterThan_throws [of "[]" 3]
  by (simp add: sampleTransaction_def)

section \<open>The ordering invariant of the log\<close>

lemma sorted_numbers_le_last:
  assumes "sorted_wrt (<) (map transactionNumber xs)" "t \<in> set xs"
  shows "transactionNumber t \<le> transactionNumber (last xs)"
proof -
  from assms(2) obtain i where i: "i < length xs" "t = xs ! i"
    by (auto simp: in_set_conv_nth)
  then have "xs \<noteq> []" by auto
  then have "last xs = xs ! (length xs - 1)" by (rule last_conv_nth)
  with i sorted_numbers_nth_le[OF assms(1), of i "length xs - 1"] show ?thesis by simp
qed

lemma increasing_addTransaction:
  assumes "sorted_wrt (<) (map transactionNumber xs)"
  shows "sorted_wrt (<) (map transactionNumber (addTransaction t xs))"
proof (cases "xs \<noteq> [] \<and> transactionNumber (last xs) \<ge> transactionNumber t")
  case True
  with assms show ?thesis by (simp add: addTransaction_cases)
next
  case False
  have "\<forall>x \<in> set xs. transactionNumber x < transactionNumber t"
  proof
    fix x assume x: "x \<in> set xs"
    then have "xs \<noteq> []" by auto
    with False have "transactionNumber (last xs) < transactionNumber t" by simp
    with sorted_numbers_le_last[OF assms x] show "transactionNumber x < transactionNumber t"
      by simp
  qed
  with assms False show ?thesis
    by (simp add: addTransaction_cases sorted_wrt_append)
qed

lemma increasing_removeTransactionsLaterThan:
  assumes "sorted_wrt (<) (map transactionNumber xs)" "removeTransactionsLaterThan n xs = Inr ys"
  shows "sorted_wrt (<) (map transactionNumber ys)"
proof -
  from removeTransactionsLaterThan_prefix[OF assms(2)] obtain k where "ys = take k xs" ..
  with assms(1) show ?thesis by (simp add: take_map[symmetric] sorted_wrt_take)
qed

lemma increasing_performCall:
  "sorted_wrt (<) (map transactionNumber xs)
   \<Longrightarrow> sorted_wrt (<) (map transactionNumber (performCall call xs))"
  by (auto simp: performCall_def increasing_addTransaction
           intro: increasing_removeTransactionsLaterThan split: StoreCall.splits sum.splits)

lemma increasing_performCalls:
  "sorted_wrt (<) (map transactionNumber xs)
   \<Longrightarrow> sorted_wrt (<) (map transactionNumber (performCalls calls xs))"
  by (induction calls arbitrary: xs) (simp_all add: increasing_performCall)

lemma getLastTransaction_maximum:
  assumes "sorted_wrt (<) (map transactionNumber xs)" "xs \<noteq> []"
  shows "transactionNumber (last xs) = Max (transactionNumber ` set xs)"
proof (rule sym, rule Max_eqI)
  show "finite (transactionNumber ` set xs)" by simp
  show "\<And>y. y \<in> transactionNumber ` set xs \<Longrightarrow> y \<le> transactionNumber (last xs)"
    using sorted_numbers_le_last[OF assms(1)] by auto
  show "transactionNumber (last xs) \<in> transactionNumber ` set xs"
    using assms(2) by simp
qed

text \<open>
  C8. From the empty log, whatever calls of \<^verbatim>\<open>addTransaction\<close> and
  \<^verbatim>\<open>removeTransactionsLaterThan\<close> are made and whatever their arguments are, the stored
  transaction numbers are strictly increasing, hence without duplicates and in numeric order
  (sorting the log by number gives the log back), and \<^verbatim>\<open>getLastTransaction\<close> answers nothing
  on the empty log and otherwise a stored transaction whose number is the maximum stored.
\<close>

theorem log_strictly_increasing:
  "sorted_wrt (<) (map transactionNumber (performCalls calls []))
   \<and> distinct (map transactionNumber (performCalls calls []))
   \<and> sort_key transactionNumber (performCalls calls []) = performCalls calls []
   \<and> (performCalls calls [] = [] \<and> getLastTransaction (performCalls calls []) = None
      \<or> (\<exists>newest. getLastTransaction (performCalls calls []) = Some newest
            \<and> newest \<in> set (performCalls calls [])
            \<and> transactionNumber newest
                = Max (transactionNumber ` set (performCalls calls []))))"
proof -
  let ?log = "performCalls calls []"
  have inc: "sorted_wrt (<) (map transactionNumber ?log)"
    by (rule increasing_performCalls) simp
  then have sd: "sorted (map transactionNumber ?log)" "distinct (map transactionNumber ?log)"
    by (simp_all add: strict_sorted_iff)
  have last: "?log = [] \<and> getLastTransaction ?log = None
      \<or> (\<exists>newest. getLastTransaction ?log = Some newest \<and> newest \<in> set ?log
            \<and> transactionNumber newest = Max (transactionNumber ` set ?log))"
  proof (cases "?log = []")
    case True
    then show ?thesis by (simp add: getLastTransaction_Nil)
  next
    case False
    then show ?thesis
      using getLastTransaction_maximum[OF inc False]
      by (simp add: getLastTransaction_last)
  qed
  from inc sd last show ?thesis
    by (simp add: sort_key_id_if_sorted)
qed

theorem log_strictly_increasing_witness:
  "performCalls [AddTransaction (sampleTransaction 5), AddTransaction (sampleTransaction 2),
                 AddTransaction (sampleTransaction 7), RemoveTransactionsLaterThan (Some 6),
                 AddTransaction (sampleTransaction 7), AddTransaction (sampleTransaction 9),
                 RemoveTransactionsLaterThan (Some 7)] []
     = [sampleTransaction 5, sampleTransaction 7]
   \<and> sorted_wrt (<) (map transactionNumber [sampleTransaction 5, sampleTransaction 7])
   \<and> getLastTransaction [sampleTransaction 5, sampleTransaction 7] = Some (sampleTransaction 7)"
proof -
  let ?calls = "[AddTransaction (sampleTransaction 5), AddTransaction (sampleTransaction 2),
                 AddTransaction (sampleTransaction 7), RemoveTransactionsLaterThan (Some 6),
                 AddTransaction (sampleTransaction 7), AddTransaction (sampleTransaction 9),
                 RemoveTransactionsLaterThan (Some 7)]"
  have run: "performCalls ?calls [] = [sampleTransaction 5, sampleTransaction 7]"
    by (simp add: performCall_def addTransaction_cases sampleTransaction_number
          removeTransactionsLaterThan_def binarySearch_def compareTransactionAndTransactionNumber_def)
  from log_strictly_increasing[of ?calls] run
  have "sorted_wrt (<) (map transactionNumber [sampleTransaction 5, sampleTransaction 7])"
    by simp
  with run show ?thesis by (simp add: getLastTransaction_last)
qed

section \<open>Checkpoint sampling\<close>

lemma exponentiallySpacedLoop_closed:
  "k \<le> floorlog 2 (length xs)
   \<Longrightarrow> exponentiallySpacedLoop xs (int (length xs) - 2 ^ k) (2 ^ k) acc
       = Some (acc @ map (\<lambda>j. xs ! (length xs - 2 ^ j)) [k..<floorlog 2 (length xs)])"
proof (induction "floorlog 2 (length xs) - k" arbitrary: k acc)
  case 0
  then have k: "k = floorlog 2 (length xs)" by simp
  have "length xs < 2 ^ k"
  proof (cases "length xs = 0")
    case True then show ?thesis by simp
  next
    case False
    then show ?thesis using floorlog_bounds[of "length xs" 2] k by simp
  qed
  then have "\<not> (int (length xs) - 2 ^ k \<ge> 0)"
    by (metis diff_ge_0_iff_ge of_nat_less_iff of_nat_numeral of_nat_power not_le)
  then show ?case
    by (subst exponentiallySpacedLoop.simps) (simp add: k)
next
  case (Suc d)
  then have lt: "k < floorlog 2 (length xs)" by simp
  then have pos: "0 < length xs" by (auto simp: floorlog_def split: if_splits)
  have "(2::nat) ^ k \<le> 2 ^ (floorlog 2 (length xs) - 1)"
    using lt by (intro power_increasing) auto
  also have "\<dots> \<le> length xs" using floorlog_bounds[of "length xs" 2] pos by simp
  finally have le: "2 ^ k \<le> length xs" .
  then have ge: "int (length xs) - 2 ^ k \<ge> 0"
    by (metis diff_ge_0_iff_ge of_nat_le_iff of_nat_numeral of_nat_power)
  have idx: "nat (int (length xs) - 2 ^ k) = length xs - 2 ^ k"
    by (simp add: nat_diff_distrib' nat_power_eq)
  have next_index: "int (length xs) - 2 ^ k - 2 ^ k = int (length xs) - 2 ^ Suc k"
    by simp
  have "exponentiallySpacedLoop xs (int (length xs) - 2 ^ k) (2 ^ k) acc
        = exponentiallySpacedLoop xs (int (length xs) - 2 ^ Suc k) (2 ^ Suc k)
            (acc @ [xs ! (length xs - 2 ^ k)])"
    using ge by (subst exponentiallySpacedLoop.simps) (simp add: idx next_index mult.commute)
  also have "\<dots> = Some ((acc @ [xs ! (length xs - 2 ^ k)])
                       @ map (\<lambda>j. xs ! (length xs - 2 ^ j)) [Suc k..<floorlog 2 (length xs)])"
    using Suc.hyps(1)[of "Suc k"] Suc.hyps(2) lt by simp
  also have "\<dots> = Some (acc @ map (\<lambda>j. xs ! (length xs - 2 ^ j)) [k..<floorlog 2 (length xs)])"
    using lt by (simp add: upt_conv_Cons)
  finally show ?case .
qed

lemma getExponentiallySpacedTransactions_closed:
  "getExponentiallySpacedTransactions xs
     = Some (map (\<lambda>j. xs ! (length xs - 2 ^ j)) [0..<floorlog 2 (length xs)])"
  using exponentiallySpacedLoop_closed[of 0 xs "[]"]
  by (simp add: getExponentiallySpacedTransactions_def)

lemma floorlog_two_floor_log:
  "0 < n \<Longrightarrow> floorlog 2 n = nat (\<lfloor>log 2 (real n)\<rfloor> + 1)"
proof -
  assume "0 < n"
  then have "0 \<le> log 2 (real n)" by simp
  then have "0 \<le> \<lfloor>log 2 (real n)\<rfloor>" by simp
  with \<open>0 < n\<close> show ?thesis by (simp add: floorlog_def nat_add_distrib)
qed

lemma floorlog_two_int:
  "0 < n \<Longrightarrow> int (floorlog 2 n) = \<lfloor>log 2 (real n)\<rfloor> + 1"
proof -
  assume "0 < n"
  then have "0 \<le> log 2 (real n)" by simp
  then have "0 \<le> \<lfloor>log 2 (real n)\<rfloor>" by simp
  with \<open>0 < n\<close> show ?thesis by (simp add: floorlog_def)
qed

text \<open>
  C3 (as amended). On a log of \<open>n \<ge> 1\<close> transactions the checkpoints are the transactions at
  the indices \<open>n - 1, n - 2, n - 4, \<dots>, n - 2 ^ k\<close>, newest first, for exactly the \<open>k\<close> with
  \<open>2 ^ k \<le> n\<close>, so that there are \<open>\<lfloor>log\<^sub>2 n\<rfloor> + 1\<close> of them; on the empty log there is none.
  The loop always returns.
\<close>

theorem getExponentiallySpacedTransactions_checkpoints:
  "(transactions \<noteq> [] \<longrightarrow>
      getExponentiallySpacedTransactions transactions
        = Some (map (\<lambda>k. transactions ! (length transactions - 2 ^ k))
                    [0..<nat (\<lfloor>log 2 (real (length transactions))\<rfloor> + 1)])
      \<and> (\<forall>k. k < nat (\<lfloor>log 2 (real (length transactions))\<rfloor> + 1)
                \<longleftrightarrow> 2 ^ k \<le> length transactions)
      \<and> (\<exists>checkpoints.
            getExponentiallySpacedTransactions transactions = Some checkpoints
            \<and> int (length checkpoints) = \<lfloor>log 2 (real (length transactions))\<rfloor> + 1))
   \<and> getExponentiallySpacedTransactions [] = Some []"
proof (intro conjI impI allI)
  assume "transactions \<noteq> []"
  then have pos: "0 < length transactions" by simp
  show "getExponentiallySpacedTransactions transactions
        = Some (map (\<lambda>k. transactions ! (length transactions - 2 ^ k))
                    [0..<nat (\<lfloor>log 2 (real (length transactions))\<rfloor> + 1)])"
    using getExponentiallySpacedTransactions_closed[of transactions]
    by (simp only: floorlog_two_floor_log[OF pos])
  fix k
  have "k < floorlog 2 (length transactions) \<longleftrightarrow> 2 ^ k \<le> length transactions"
    using floorlog_le_iff[of 2 "length transactions" k] pos by (auto simp: not_le[symmetric])
  then show "k < nat (\<lfloor>log 2 (real (length transactions))\<rfloor> + 1)
                \<longleftrightarrow> 2 ^ k \<le> length transactions"
    by (simp only: floorlog_two_floor_log[OF pos])
  from floorlog_two_int[OF pos] show "\<exists>checkpoints.
            getExponentiallySpacedTransactions transactions = Some checkpoints
            \<and> int (length checkpoints) = \<lfloor>log 2 (real (length transactions))\<rfloor> + 1"
    by (simp add: getExponentiallySpacedTransactions_closed)
next
  show "getExponentiallySpacedTransactions [] = Some []"
    using getExponentiallySpacedTransactions_closed[of "[]"] by (simp add: floorlog_def)
qed

theorem getExponentiallySpacedTransactions_checkpoints_witness:
  "[sampleTransaction 1, sampleTransaction 2, sampleTransaction 3, sampleTransaction 4,
    sampleTransaction 5] \<noteq> []
   \<and> getExponentiallySpacedTransactions
       [sampleTransaction 1, sampleTransaction 2, sampleTransaction 3, sampleTransaction 4,
        sampleTransaction 5]
     = Some [sampleTransaction 5, sampleTransaction 4, sampleTransaction 2]"
proof -
  let ?log = "[sampleTransaction 1, sampleTransaction 2, sampleTransaction 3,
               sampleTransaction 4, sampleTransaction 5]"
  have "\<lfloor>log (real 2) (real 5)\<rfloor> = int 2"
    by (rule floor_log_nat_eq_if) simp_all
  then have count: "nat (\<lfloor>log 2 (real (length ?log))\<rfloor> + 1) = 3" by simp
  have upt: "[0..<3] = [0, 1, 2]" by (simp add: upt_rec)
  from getExponentiallySpacedTransactions_checkpoints[of ?log]
  have "getExponentiallySpacedTransactions ?log
        = Some (map (\<lambda>k. ?log ! (length ?log - 2 ^ k))
                    [0..<nat (\<lfloor>log 2 (real (length ?log))\<rfloor> + 1)])"
    by blast
  then show ?thesis unfolding count upt by simp
qed

text \<open>
  A log of three transactions has two checkpoints (indices 2 and 1; the next index would be
  \<open>3 - 4\<close>), not \<open>\<lceil>log\<^sub>2 3\<rceil> + 1 = 3\<close>, and the transaction at index 0 is not among them.
\<close>

theorem getExponentiallySpacedTransactions_count_counterexample:
  "getExponentiallySpacedTransactions
       [sampleTransaction 1, sampleTransaction 2, sampleTransaction 3]
     = Some [sampleTransaction 3, sampleTransaction 2]
   \<and> int (length [sampleTransaction 3, sampleTransaction 2])
       \<noteq> \<lceil>log 2 (real (length [sampleTransaction 1, sampleTransaction 2, sampleTransaction 3]))\<rceil> + 1"
proof
  show "getExponentiallySpacedTransactions
       [sampleTransaction 1, sampleTransaction 2, sampleTransaction 3]
     = Some [sampleTransaction 3, sampleTransaction 2]"
    by (simp add: getExponentiallySpacedTransactions_def exponentiallySpacedLoop.simps)
  have "\<lceil>log (real 2) (real 3)\<rceil> = int 1 + 1"
    by (rule ceiling_log_nat_eq_if) simp_all
  then show "int (length [sampleTransaction 3, sampleTransaction 2])
       \<noteq> \<lceil>log 2 (real (length [sampleTransaction 1, sampleTransaction 2, sampleTransaction 3]))\<rceil> + 1"
    by simp
qed

section \<open>Fork resolution\<close>

lemma copied_fields:
  "\<lparr>transactionNumber = transactionNumber t, transactionTime = transactionTime t,
    transactionTimeHash = transactionTimeHash t, anchorFileHash = anchorFileHash t\<rparr> = t"
  by simp

lemma checkpoints_stored:
  assumes "getExponentiallySpacedTransactions xs = Some checkpoints"
  shows "set checkpoints \<subseteq> set xs"
proof
  fix t assume "t \<in> set checkpoints"
  with assms getExponentiallySpacedTransactions_closed[of xs]
  obtain j where j: "j < floorlog 2 (length xs)" "t = xs ! (length xs - 2 ^ j)"
    by auto
  then have "0 < length xs" by (auto simp: floorlog_def split: if_splits)
  then have "length xs - 2 ^ j < length xs" by simp
  with j show "t \<in> set xs" by simp
qed

lemma RevertInvalidTransactions_request:
  assumes "getExponentiallySpacedTransactions (transactionStore s) = Some checkpoints"
  shows "RevertInvalidTransactions handler s =
     (let answer = handleFirstValidRequest handler (upstream s) checkpoints;
          s1 = s\<lparr>upstream := snd answer,
                 requests := requests s @ [FirstValidRequest checkpoints]\<rparr>
      in case fst answer of
           Inl thrown \<Rightarrow> Some (Threw thrown s1)
         | Inr FirstValidOtherStatus \<Rightarrow> Some (Completed s1)
         | Inr (FirstValidSucceeded valid) \<Rightarrow>
             (case removeTransactionsLaterThan (Some (transactionNumber valid))
                     (transactionStore s) of
                Inl thrown \<Rightarrow> Some (Threw thrown s1)
              | Inr transactions' \<Rightarrow>
                  Some (Completed (s1\<lparr>transactionStore := transactions',
                                      lastKnownTransaction := Some valid\<rparr>))))"
  using assms
  by (simp add: RevertInvalidTransactions_def copied_fields Let_def
           split: sum.splits FirstValidResponse.splits)

lemma removeTransactionsLaterThan_stored:
  assumes "sorted_wrt (<) (map transactionNumber xs)" "t \<in> set xs"
  shows "\<exists>k < length xs. xs ! k = t
           \<and> removeTransactionsLaterThan (Some (transactionNumber t)) xs = Inr (take (Suc k) xs)"
proof -
  from assms(2) obtain k where k: "k < length xs" "xs ! k = t"
    by (auto simp: in_set_conv_nth)
  with removeTransactionsLaterThan_at_index[OF assms(1), of k] show ?thesis by auto
qed

lemma getLastTransaction_take:
  "k < length xs \<Longrightarrow> getLastTransaction (take (Suc k) xs) = Some (xs ! k)"
proof -
  assume k: "k < length xs"
  then have "length (take (Suc k) xs) = Suc k" by simp
  then have "getLastTransaction (take (Suc k) xs) = Some (take (Suc k) xs ! k)"
    by (simp add: getLastTransaction_def)
  then show ?thesis by simp
qed

text \<open>
  C4. On a log holding the transactions numbered 1 to 5, when the first-valid query (sent with
  the checkpoints sampled from that log) succeeds and names transaction number 3,
  \<^verbatim>\<open>RevertInvalidTransactions\<close> completes, the log then holds the transactions numbered 1, 2, 3
  (the first three, as they were) and \<^verbatim>\<open>lastKnownTransaction\<close> is the transaction of the answer.
\<close>

theorem fork_resolution_end_to_end:
  assumes "map transactionNumber (transactionStore s) = [1, 2, 3, 4, 5]"
    and "getExponentiallySpacedTransactions (transactionStore s) = Some checkpoints"
    and "fst (handleFirstValidRequest handler (upstream s) checkpoints)
           = Inr (FirstValidSucceeded valid)"
    and "transactionNumber valid = 3"
  shows "\<exists>s'. RevertInvalidTransactions handler s = Some (Completed s')
           \<and> transactionStore s' = take 3 (transactionStore s)
           \<and> map transactionNumber (transactionStore s') = [1, 2, 3]
           \<and> lastKnownTransaction s' = Some valid
           \<and> map_option transactionNumber (lastKnownTransaction s') = Some 3"
proof -
  let ?xs = "transactionStore s"
  have "length (map transactionNumber ?xs) = 5" by (simp only: assms(1)) simp
  then have len: "length ?xs = 5" by simp
  have sorted: "sorted_wrt (<) (map transactionNumber ?xs)" using assms(1) by simp
  have "map transactionNumber ?xs ! 2 = 3" using assms(1) by simp
  then have third: "transactionNumber (?xs ! 2) = transactionNumber valid"
    using len assms(4) by simp
  have "removeTransactionsLaterThan (Some (transactionNumber valid)) ?xs = Inr (take 3 ?xs)"
    using removeTransactionsLaterThan_at_index[OF sorted, of 2] len third
    by (simp add: numeral_3_eq_3)
  moreover have "map transactionNumber (take 3 ?xs) = [1, 2, 3]"
    using assms(1) by (simp add: take_map[symmetric])
  ultimately show ?thesis
    using assms(3,4) by (simp add: RevertInvalidTransactions_request[OF assms(2)])
qed

lemma sample_log_checkpoints:
  "getExponentiallySpacedTransactions
     [sampleTransaction 1, sampleTransaction 2, sampleTransaction 3, sampleTransaction 4,
      sampleTransaction 5]
   = Some [sampleTransaction 5, sampleTransaction 4, sampleTransaction 2]"
  by (simp add: getExponentiallySpacedTransactions_def exponentiallySpacedLoop.simps)

theorem fork_resolution_end_to_end_witness:
  "map transactionNumber
     (transactionStore (startedService
        [sampleTransaction 1, sampleTransaction 2, sampleTransaction 3, sampleTransaction 4,
         sampleTransaction 5] ([] :: FetchResponse list))) = [1, 2, 3, 4, 5]
   \<and> transactionNumber (sampleTransaction 3) = 3
   \<and> map_option (transactionStore \<circ> reached)
        (RevertInvalidTransactions (scriptedHandler (FirstValidSucceeded (sampleTransaction 3)))
           (startedService
              [sampleTransaction 1, sampleTransaction 2, sampleTransaction 3,
               sampleTransaction 4, sampleTransaction 5] []))
       = Some [sampleTransaction 1, sampleTransaction 2, sampleTransaction 3]
   \<and> map_option (lastKnownTransaction \<circ> reached)
        (RevertInvalidTransactions (scriptedHandler (FirstValidSucceeded (sampleTransaction 3)))
           (startedService
              [sampleTransaction 1, sampleTransaction 2, sampleTransaction 3,
               sampleTransaction 4, sampleTransaction 5] []))
       = Some (Some (sampleTransaction 3))"
proof -
  let ?log = "[sampleTransaction 1, sampleTransaction 2, sampleTransaction 3,
               sampleTransaction 4, sampleTransaction 5]"
  let ?s = "startedService ?log ([] :: FetchResponse list)"
  let ?h = "scriptedHandler (FirstValidSucceeded (sampleTransaction 3))"
  have store: "transactionStore ?s = ?log"
    by (simp add: startedService_def startPeriodicProcessing_def)
  have numbers: "map transactionNumber (transactionStore ?s) = [1, 2, 3, 4, 5]"
    by (simp add: store sampleTransaction_number)
  have sampled: "getExponentiallySpacedTransactions (transactionStore ?s)
                   = Some [sampleTransaction 5, sampleTransaction 4, sampleTransaction 2]"
    by (simp only: store sample_log_checkpoints)
  have answer: "fst (handleFirstValidRequest ?h (upstream ?s)
                       [sampleTransaction 5, sampleTransaction 4, sampleTransaction 2])
                  = Inr (FirstValidSucceeded (sampleTransaction 3))"
    by (simp add: scriptedHandler_def)
  have three: "transactionNumber (sampleTransaction 3) = 3"
    by (simp add: sampleTransaction_number)
  from fork_resolution_end_to_end[OF numbers sampled answer three]
  obtain s' where s': "RevertInvalidTransactions ?h ?s = Some (Completed s')"
    "transactionStore s' = take 3 (transactionStore ?s)"
    "lastKnownTransaction s' = Some (sampleTransaction 3)"
    by blast
  from s'(2) have cut: "transactionStore s' = [sampleTransaction 1, sampleTransaction 2, sampleTransaction 3]"
    by (simp add: store)
  have log': "map_option (transactionStore \<circ> reached) (RevertInvalidTransactions ?h ?s)
                = Some [sampleTransaction 1, sampleTransaction 2, sampleTransaction 3]"
    by (simp add: s'(1) cut)
  have known': "map_option (lastKnownTransaction \<circ> reached) (RevertInvalidTransactions ?h ?s)
                = Some (Some (sampleTransaction 3))"
    by (simp add: s'(1,3))
  from numbers three log' known' show ?thesis by blast
qed

lemma RevertInvalidTransactions_truncates:
  assumes sorted: "sorted_wrt (<) (map transactionNumber (transactionStore s))"
    and sampled: "getExponentiallySpacedTransactions (transactionStore s) = Some checkpoints"
    and answer: "fst (handleFirstValidRequest handler (upstream s) checkpoints)
                   = Inr (FirstValidSucceeded valid)"
    and member: "valid \<in> set checkpoints"
  shows "RevertInvalidTransactions handler s =
           Some (Completed
             (s\<lparr>upstream := snd (handleFirstValidRequest handler (upstream s) checkpoints),
                requests := requests s @ [FirstValidRequest checkpoints],
                transactionStore :=
                  filter (\<lambda>t. transactionNumber t \<le> transactionNumber valid)
                    (transactionStore s),
                lastKnownTransaction := Some valid\<rparr>))"
    and "getLastTransaction
           (filter (\<lambda>t. transactionNumber t \<le> transactionNumber valid) (transactionStore s))
         = Some valid"
proof -
  let ?xs = "transactionStore s"
  have stored: "valid \<in> set ?xs" using checkpoints_stored[OF sampled] member by auto
  from removeTransactionsLaterThan_stored[OF sorted stored]
  obtain k where k: "k < length ?xs" "?xs ! k = valid"
    "removeTransactionsLaterThan (Some (transactionNumber valid)) ?xs = Inr (take (Suc k) ?xs)"
    by blast
  have cut: "take (Suc k) ?xs
               = filter (\<lambda>t. transactionNumber t \<le> transactionNumber valid) ?xs"
    using take_eq_filter_numbers[OF sorted k(1)] k(2) by simp
  show "getLastTransaction
           (filter (\<lambda>t. transactionNumber t \<le> transactionNumber valid) ?xs) = Some valid"
    using getLastTransaction_take[OF k(1)] k(2) cut by simp
  show "RevertInvalidTransactions handler s =
           Some (Completed
             (s\<lparr>upstream := snd (handleFirstValidRequest handler (upstream s) checkpoints),
                requests := requests s @ [FirstValidRequest checkpoints],
                transactionStore :=
                  filter (\<lambda>t. transactionNumber t \<le> transactionNumber valid) ?xs,
                lastKnownTransaction := Some valid\<rparr>))"
    using k(3) by (simp add: RevertInvalidTransactions_request[OF sampled] answer cut)
qed

text \<open>
  C9. Each append of the ingestion loop leaves \<^verbatim>\<open>lastKnownTransaction\<close> equal to
  \<^verbatim>\<open>getLastTransaction()\<close>; and so does the truncation of fork resolution, on a log with strictly
  increasing numbers, when the first-valid answer is one of the checkpoints that were sent: the
  log is then cut after that transaction, which becomes both its last element and
  \<^verbatim>\<open>lastKnownTransaction\<close>.
\<close>

theorem lastKnownTransaction_follows_log:
  "lastKnownTransaction (storeFetchedTransaction t s)
     = getLastTransaction (transactionStore (storeFetchedTransaction t s))
   \<and> (sorted_wrt (<) (map transactionNumber (transactionStore s))
        \<and> getExponentiallySpacedTransactions (transactionStore s) = Some checkpoints
        \<and> fst (handleFirstValidRequest handler (upstream s) checkpoints)
             = Inr (FirstValidSucceeded valid)
        \<and> valid \<in> set checkpoints
      \<longrightarrow> (\<exists>s'. RevertInvalidTransactions handler s = Some (Completed s')
                \<and> transactionStore s'
                    = filter (\<lambda>t. transactionNumber t \<le> transactionNumber valid)
                        (transactionStore s)
                \<and> lastKnownTransaction s' = Some valid
                \<and> lastKnownTransaction s' = getLastTransaction (transactionStore s')))"
proof (intro conjI impI)
  show "lastKnownTransaction (storeFetchedTransaction t s)
     = getLastTransaction (transactionStore (storeFetchedTransaction t s))"
    by (simp add: storeFetchedTransaction_def Let_def)
next
  assume "sorted_wrt (<) (map transactionNumber (transactionStore s))
        \<and> getExponentiallySpacedTransactions (transactionStore s) = Some checkpoints
        \<and> fst (handleFirstValidRequest handler (upstream s) checkpoints)
             = Inr (FirstValidSucceeded valid)
        \<and> valid \<in> set checkpoints"
  then have a: "sorted_wrt (<) (map transactionNumber (transactionStore s))"
    "getExponentiallySpacedTransactions (transactionStore s) = Some checkpoints"
    "fst (handleFirstValidRequest handler (upstream s) checkpoints)
       = Inr (FirstValidSucceeded valid)"
    "valid \<in> set checkpoints"
    by simp_all
  show "\<exists>s'. RevertInvalidTransactions handler s = Some (Completed s')
                \<and> transactionStore s'
                    = filter (\<lambda>t. transactionNumber t \<le> transactionNumber valid)
                        (transactionStore s)
                \<and> lastKnownTransaction s' = Some valid
                \<and> lastKnownTransaction s' = getLastTransaction (transactionStore s')"
    by (simp add: RevertInvalidTransactions_truncates[OF a])
qed

theorem lastKnownTransaction_follows_log_witness:
  "sorted_wrt (<) (map transactionNumber (transactionStore (startedService
        [sampleTransaction 1, sampleTransaction 2, sampleTransaction 3, sampleTransaction 4,
         sampleTransaction 5] ([] :: FetchResponse list))))
   \<and> sampleTransaction 4 \<in> set [sampleTransaction 5, sampleTransaction 4, sampleTransaction 2]
   \<and> map_option (transactionStore \<circ> reached)
        (RevertInvalidTransactions (scriptedHandler (FirstValidSucceeded (sampleTransaction 4)))
           (startedService
              [sampleTransaction 1, sampleTransaction 2, sampleTransaction 3,
               sampleTransaction 4, sampleTransaction 5] []))
       = Some [sampleTransaction 1, sampleTransaction 2, sampleTransaction 3, sampleTransaction 4]
   \<and> map_option (lastKnownTransaction \<circ> reached)
        (RevertInvalidTransactions (scriptedHandler (FirstValidSucceeded (sampleTransaction 4)))
           (startedService
              [sampleTransaction 1, sampleTransaction 2, sampleTransaction 3,
               sampleTransaction 4, sampleTransaction 5] []))
       = Some (getLastTransaction
                 [sampleTransaction 1, sampleTransaction 2, sampleTransaction 3, sampleTransaction 4])"
proof -
  let ?log = "[sampleTransaction 1, sampleTransaction 2, sampleTransaction 3,
               sampleTransaction 4, sampleTransaction 5]"
  let ?s = "startedService ?log ([] :: FetchResponse list)"
  let ?h = "scriptedHandler (FirstValidSucceeded (sampleTransaction 4))"
  let ?checkpoints = "[sampleTransaction 5, sampleTransaction 4, sampleTransaction 2]"
  have store: "transactionStore ?s = ?log"
    by (simp add: startedService_def startPeriodicProcessing_def)
  have sorted: "sorted_wrt (<) (map transactionNumber (transactionStore ?s))"
    by (simp add: store sampleTransaction_number)
  have sampled: "getExponentiallySpacedTransactions (transactionStore ?s) = Some ?checkpoints"
    by (simp only: store sample_log_checkpoints)
  have answer: "fst (handleFirstValidRequest ?h (upstream ?s) ?checkpoints)
                  = Inr (FirstValidSucceeded (sampleTransaction 4))"
    by (simp add: scriptedHandler_def)
  have member: "sampleTransaction 4 \<in> set ?checkpoints" by simp
  from lastKnownTransaction_follows_log
         [of "sampleTransaction 1" ?s ?checkpoints ?h "sampleTransaction 4"]
       sorted sampled answer member
  obtain s' where s': "RevertInvalidTransactions ?h ?s = Some (Completed s')"
    "transactionStore s'
       = filter (\<lambda>t. transactionNumber t \<le> transactionNumber (sampleTransaction 4))
           (transactionStore ?s)"
    "lastKnownTransaction s' = getLastTransaction (transactionStore s')"
    by blast
  from s'(2) have cut: "transactionStore s'
      = [sampleTransaction 1, sampleTransaction 2, sampleTransaction 3, sampleTransaction 4]"
    by (simp add: store sampleTransaction_number)
  have log': "map_option (transactionStore \<circ> reached) (RevertInvalidTransactions ?h ?s)
      = Some [sampleTransaction 1, sampleTransaction 2, sampleTransaction 3, sampleTransaction 4]"
    by (simp add: s'(1) cut)
  have known': "map_option (lastKnownTransaction \<circ> reached) (RevertInvalidTransactions ?h ?s)
      = Some (getLastTransaction
                [sampleTransaction 1, sampleTransaction 2, sampleTransaction 3, sampleTransaction 4])"
    by (simp add: s'(1,3) cut)
  from sorted member log' known' show ?thesis by blast
qed

section \<open>An upstream that finds no valid checkpoint\<close>

lemma RevertInvalidTransactions_returns:
  "\<exists>out checkpoints.
     getExponentiallySpacedTransactions (transactionStore s) = Some checkpoints
     \<and> RevertInvalidTransactions handler s = Some out
     \<and> requests (reached out) = requests s @ [FirstValidRequest checkpoints]
     \<and> blockReorganizationDetected (reached out) = blockReorganizationDetected s
     \<and> moreTransactions (reached out) = moreTransactions s
     \<and> consoleErrors (reached out) = consoleErrors s"
proof -
  obtain checkpoints
    where sampled: "getExponentiallySpacedTransactions (transactionStore s) = Some checkpoints"
    using getExponentiallySpacedTransactions_closed by blast
  show ?thesis
    by (simp add: sampled RevertInvalidTransactions_request[OF sampled] Let_def
             split: sum.splits FirstValidResponse.splits)
qed

text \<open>
  C6 (as amended). When the first-valid query answers with a status other than
  \<^verbatim>\<open>Succeeded\<close>, \<^verbatim>\<open>RevertInvalidTransactions\<close> returns normally: nothing is thrown, nothing is
  printed as an error, and the log and \<^verbatim>\<open>lastKnownTransaction\<close> are as they were.
\<close>

theorem no_valid_checkpoint_is_a_no_op:
  assumes "getExponentiallySpacedTransactions (transactionStore s) = Some checkpoints"
    and "fst (handleFirstValidRequest handler (upstream s) checkpoints)
           = Inr FirstValidOtherStatus"
  shows "\<exists>s'. RevertInvalidTransactions handler s = Some (Completed s')
           \<and> transactionStore s' = transactionStore s
           \<and> lastKnownTransaction s' = lastKnownTransaction s
           \<and> consoleErrors s' = consoleErrors s
           \<and> requests s' = requests s @ [FirstValidRequest checkpoints]"
  using assms(2) by (simp add: RevertInvalidTransactions_request[OF assms(1)])

lemma three_log_checkpoints:
  "getExponentiallySpacedTransactions
     [sampleTransaction 1, sampleTransaction 2, sampleTransaction 3]
   = Some [sampleTransaction 3, sampleTransaction 2]"
  by (simp add: getExponentiallySpacedTransactions_def exponentiallySpacedLoop.simps)

theorem no_valid_checkpoint_is_a_no_op_witness:
  "getExponentiallySpacedTransactions
     [sampleTransaction 1, sampleTransaction 2, sampleTransaction 3]
     = Some [sampleTransaction 3, sampleTransaction 2]
   \<and> map_option (transactionStore \<circ> reached)
        (RevertInvalidTransactions (scriptedHandler FirstValidOtherStatus)
           (startedService [sampleTransaction 1, sampleTransaction 2, sampleTransaction 3] []))
       = Some [sampleTransaction 1, sampleTransaction 2, sampleTransaction 3]
   \<and> map_option (consoleErrors \<circ> reached)
        (RevertInvalidTransactions (scriptedHandler FirstValidOtherStatus)
           (startedService [sampleTransaction 1, sampleTransaction 2, sampleTransaction 3] []))
       = Some []"
proof -
  let ?log = "[sampleTransaction 1, sampleTransaction 2, sampleTransaction 3]"
  let ?s = "startedService ?log ([] :: FetchResponse list)"
  let ?h = "scriptedHandler FirstValidOtherStatus"
  have store: "transactionStore ?s = ?log" "consoleErrors ?s = []"
    by (simp_all add: startedService_def startPeriodicProcessing_def)
  have sampled: "getExponentiallySpacedTransactions (transactionStore ?s)
                   = Some [sampleTransaction 3, sampleTransaction 2]"
    by (simp only: store three_log_checkpoints)
  have answer: "fst (handleFirstValidRequest ?h (upstream ?s)
                       [sampleTransaction 3, sampleTransaction 2]) = Inr FirstValidOtherStatus"
    by (simp add: scriptedHandler_def)
  from no_valid_checkpoint_is_a_no_op[OF sampled answer]
  obtain s' where s': "RevertInvalidTransactions ?h ?s = Some (Completed s')"
    "transactionStore s' = transactionStore ?s" "consoleErrors s' = consoleErrors ?s"
    by blast
  have log': "map_option (transactionStore \<circ> reached) (RevertInvalidTransactions ?h ?s)
                = Some ?log"
    by (simp add: s' store)
  have errors': "map_option (consoleErrors \<circ> reached) (RevertInvalidTransactions ?h ?s)
                = Some []"
    by (simp add: s' store)
  from three_log_checkpoints log' errors' show ?thesis by blast
qed

text \<open>
  A cycle on a log of three transactions against an upstream that signals a reorganization and
  then reports no valid checkpoint: the revert completes, the cycle ends with nothing printed
  by \<^verbatim>\<open>console.error\<close>, and the log and \<^verbatim>\<open>lastKnownTransaction\<close> are untouched.
\<close>

theorem no_valid_checkpoint_counterexample:
  "processTransactions (scriptedHandler FirstValidOtherStatus)
     (startedService [sampleTransaction 1, sampleTransaction 2, sampleTransaction 3]
        [FetchBadRequest ''invalid_transaction_number_or_time_hash''])
   = Some \<lparr>transactionStore = [sampleTransaction 1, sampleTransaction 2, sampleTransaction 3],
           lastKnownTransaction = Some (sampleTransaction 3),
           upstream = [],
           blockReorganizationDetected = True,
           moreTransactions = False,
           requests = [FetchRequest (Some 3) (Some ''hash''),
                       FirstValidRequest [sampleTransaction 3, sampleTransaction 2]],
           consoleErrors = []\<rparr>"
  by (simp add: processTransactions_def fetchLoop.simps fetchIteration_def
        RevertInvalidTransactions_def three_log_checkpoints copied_fields
        startedService_def startPeriodicProcessing_def getLastTransaction_last
        scriptedHandler_def sampleTransaction_number sampleTransaction_timeHash
        lastKnownTransactionNumber_def lastKnownTransactionTimeHash_def handleReadResult_def)

section \<open>The processing cycle\<close>

lemma storeFetchedTransactions_frame:
  "upstream (storeFetchedTransactions ts s) = upstream s
   \<and> requests (storeFetchedTransactions ts s) = requests s
   \<and> blockReorganizationDetected (storeFetchedTransactions ts s) = blockReorganizationDetected s
   \<and> moreTransactions (storeFetchedTransactions ts s) = moreTransactions s
   \<and> consoleErrors (storeFetchedTransactions ts s) = consoleErrors s"
  by (induction ts arbitrary: s) (simp_all add: storeFetchedTransaction_def Let_def)

lemma handleReadResult_frame:
  "upstream (handleReadResult readResult s) = upstream s
   \<and> requests (handleReadResult readResult s) = requests s
   \<and> consoleErrors (handleReadResult readResult s) = consoleErrors s
   \<and> (blockReorganizationDetected s
        \<longrightarrow> blockReorganizationDetected (handleReadResult readResult s))"
  by (cases readResult) (simp_all add: handleReadResult_def storeFetchedTransactions_frame)

lemma handleReadResult_flag:
  "blockReorganizationDetected s \<Longrightarrow> blockReorganizationDetected (handleReadResult readResult s)"
  by (simp add: handleReadResult_frame)

lemma handleReadResult_signal:
  "handleReadResult (FetchBadRequest ''invalid_transaction_number_or_time_hash'') s
     = s\<lparr>blockReorganizationDetected := True\<rparr>"
  by (simp add: handleReadResult_def)

lemma fetchIteration_thrown:
  assumes "fst (handleFetchRequest handler (upstream s) (lastKnownTransactionNumber s)
                  (lastKnownTransactionTimeHash s)) = Inl thrown"
  shows "fetchIteration handler s =
           Some (Threw thrown
             (s\<lparr>upstream := snd (handleFetchRequest handler (upstream s)
                                    (lastKnownTransactionNumber s)
                                    (lastKnownTransactionTimeHash s)),
                requests := requests s @
                  [FetchRequest (lastKnownTransactionNumber s)
                     (lastKnownTransactionTimeHash s)]\<rparr>))"
  using assms by (simp add: fetchIteration_def Let_def)

lemma fetchIteration_answered:
  assumes "fst (handleFetchRequest handler (upstream s) (lastKnownTransactionNumber s)
                  (lastKnownTransactionTimeHash s)) = Inr readResult"
  shows "fetchIteration handler s =
           (let s2 = handleReadResult readResult
                       (s\<lparr>upstream := snd (handleFetchRequest handler (upstream s)
                                              (lastKnownTransactionNumber s)
                                              (lastKnownTransactionTimeHash s)),
                          requests := requests s @
                            [FetchRequest (lastKnownTransactionNumber s)
                               (lastKnownTransactionTimeHash s)]\<rparr>)
            in if blockReorganizationDetected s2
               then RevertInvalidTransactions handler s2
               else Some (Completed s2))"
  using assms by (simp add: fetchIteration_def Let_def)

lemma fetchIteration_requests:
  assumes "fetchIteration handler s = Some out"
  shows "\<exists>later. requests (reached out)
           = requests s @ FetchRequest (lastKnownTransactionNumber s)
                            (lastKnownTransactionTimeHash s) # later"
proof (cases "fst (handleFetchRequest handler (upstream s) (lastKnownTransactionNumber s)
                  (lastKnownTransactionTimeHash s))")
  case (Inl thrown)
  from fetchIteration_thrown[OF Inl] assms show ?thesis by auto
next
  case (Inr readResult)
  let ?s1 = "s\<lparr>upstream := snd (handleFetchRequest handler (upstream s)
                                              (lastKnownTransactionNumber s)
                                              (lastKnownTransactionTimeHash s)),
                          requests := requests s @
                            [FetchRequest (lastKnownTransactionNumber s)
                               (lastKnownTransactionTimeHash s)]\<rparr>"
  let ?s2 = "handleReadResult readResult ?s1"
  have r2: "requests ?s2 = requests s @ [FetchRequest (lastKnownTransactionNumber s)
                               (lastKnownTransactionTimeHash s)]"
    by (simp add: handleReadResult_frame)
  show ?thesis
  proof (cases "blockReorganizationDetected ?s2")
    case True
    with fetchIteration_answered[OF Inr] assms
    have "RevertInvalidTransactions handler ?s2 = Some out" by (simp add: Let_def)
    with RevertInvalidTransactions_returns[of ?s2 handler]
    obtain checkpoints where "requests (reached out) = requests ?s2 @ [FirstValidRequest checkpoints]"
      by auto
    with r2 show ?thesis by simp
  next
    case False
    with fetchIteration_answered[OF Inr] assms
    have "out = Completed ?s2" by (simp add: Let_def)
    with r2 show ?thesis by simp
  qed
qed

lemma fetchIteration_flag:
  assumes "fetchIteration handler s = Some out" "blockReorganizationDetected s"
  shows "blockReorganizationDetected (reached out)"
proof (cases "fst (handleFetchRequest handler (upstream s) (lastKnownTransactionNumber s)
                  (lastKnownTransactionTimeHash s))")
  case (Inl thrown)
  from fetchIteration_thrown[OF Inl] assms show ?thesis by auto
next
  case (Inr readResult)
  let ?s2 = "handleReadResult readResult (s\<lparr>upstream := snd (handleFetchRequest handler (upstream s)
                                              (lastKnownTransactionNumber s)
                                              (lastKnownTransactionTimeHash s)),
                          requests := requests s @
                            [FetchRequest (lastKnownTransactionNumber s)
                               (lastKnownTransactionTimeHash s)]\<rparr>)"
  have flag: "blockReorganizationDetected ?s2"
    by (rule handleReadResult_flag) (simp add: assms(2))
  with fetchIteration_answered[OF Inr] assms
  have "RevertInvalidTransactions handler ?s2 = Some out" by (simp add: Let_def)
  with RevertInvalidTransactions_returns[of ?s2 handler] flag show ?thesis by auto
qed

lemma fetchLoop_invariant:
  assumes run: "fetchLoop handler s = Some out"
    and step: "\<And>s out. I s \<Longrightarrow> fetchIteration handler s = Some out \<Longrightarrow> I (reached out)"
    and start: "I s"
  shows "I (reached out)"
proof -
  have "handler = handler \<longrightarrow> I s \<longrightarrow> I (reached out)"
  proof (rule fetchLoop.raw_induct
           [where P = "\<lambda>h s out. h = handler \<longrightarrow> I s \<longrightarrow> I (reached out)", OF _ run])
    fix loop :: "'a RequestHandler \<Rightarrow> 'a BlockchainService \<Rightarrow> 'a BlockchainService outcome option"
      and h s out
    assume IH: "\<And>h s' out'. loop h s' = Some out'
                  \<Longrightarrow> h = handler \<longrightarrow> I s' \<longrightarrow> I (reached out')"
      and body: "(case fetchIteration h s of
                    None \<Rightarrow> None
                  | Some (Completed s') \<Rightarrow>
                      if moreTransactions s' then loop h s' else Some (Completed s')
                  | Some (Threw thrown s') \<Rightarrow> Some (Threw thrown s')) = Some out"
    show "h = handler \<longrightarrow> I s \<longrightarrow> I (reached out)"
    proof (intro impI)
      assume h: "h = handler" and inv: "I s"
      from body obtain pass where pass: "fetchIteration h s = Some pass"
        by (cases "fetchIteration h s") auto
      from step[OF inv] pass h have inv': "I (reached pass)" by simp
      show "I (reached out)"
      proof (cases pass)
        case (Threw thrown s')
        with pass body have "out = pass" by simp
        with inv' show ?thesis by simp
      next
        case (Completed s')
        show ?thesis
        proof (cases "moreTransactions s'")
          case True
          with pass Completed body have "loop h s' = Some out" by simp
          from IH[OF this] h inv' Completed show ?thesis by simp
        next
          case False
          with pass Completed body have "out = pass" by simp
          with inv' show ?thesis by simp
        qed
      qed
    qed
  qed
  with start show ?thesis by simp
qed

lemma processTransactions_invariant:
  assumes run: "processTransactions handler s = Some s'"
    and step: "\<And>s out. I s \<Longrightarrow> fetchIteration handler s = Some out \<Longrightarrow> I (reached out)"
    and start: "I (s\<lparr>blockReorganizationDetected := False, moreTransactions := False\<rparr>)"
    and printed: "\<And>s thrown. I s \<Longrightarrow> I (s\<lparr>consoleErrors := consoleErrors s @ [thrown]\<rparr>)"
  shows "I s'"
proof -
  let ?s0 = "s\<lparr>blockReorganizationDetected := False, moreTransactions := False\<rparr>"
  from run obtain out where out: "fetchLoop handler ?s0 = Some out"
    by (auto simp: processTransactions_def split: option.splits)
  from fetchLoop_invariant[of handler ?s0 out I, OF out step start]
  have "I (reached out)" .
  with run out printed show ?thesis
    by (cases out) (auto simp: processTransactions_def)
qed

lemma fetchLoop_flag:
  assumes "fetchLoop handler s = Some out"
  shows "blockReorganizationDetected s \<longrightarrow> blockReorganizationDetected (reached out)"
  using fetchLoop_invariant[of handler s out blockReorganizationDetected, OF assms]
        fetchIteration_flag[of handler]
  by blast

lemma fetchIteration_signal:
  assumes "fst (handleFetchRequest handler (upstream s) (lastKnownTransactionNumber s)
                  (lastKnownTransactionTimeHash s))
             = Inr (FetchBadRequest ''invalid_transaction_number_or_time_hash'')"
  shows "fetchIteration handler s =
           RevertInvalidTransactions handler
             (s\<lparr>upstream := snd (handleFetchRequest handler (upstream s)
                                    (lastKnownTransactionNumber s)
                                    (lastKnownTransactionTimeHash s)),
                requests := requests s @
                  [FetchRequest (lastKnownTransactionNumber s)
                     (lastKnownTransactionTimeHash s)],
                blockReorganizationDetected := True\<rparr>)"
  by (simp add: fetchIteration_answered[OF assms] handleReadResult_signal Let_def)

lemma fetchLoop_step:
  "fetchIteration handler s = Some (Completed s')
   \<Longrightarrow> fetchLoop handler s
       = (if moreTransactions s' then fetchLoop handler s' else Some (Completed s'))"
  by (subst fetchLoop.simps) simp

lemma fetchIteration_signal_truncates:
  assumes signal:
      "fst (handleFetchRequest handler (upstream s) (lastKnownTransactionNumber s)
              (lastKnownTransactionTimeHash s))
         = Inr (FetchBadRequest ''invalid_transaction_number_or_time_hash'')"
    and sorted: "sorted_wrt (<) (map transactionNumber (transactionStore s))"
    and sampled: "getExponentiallySpacedTransactions (transactionStore s) = Some checkpoints"
    and answer:
      "fst (handleFirstValidRequest handler
              (snd (handleFetchRequest handler (upstream s) (lastKnownTransactionNumber s)
                      (lastKnownTransactionTimeHash s)))
              checkpoints)
         = Inr (FirstValidSucceeded valid)"
    and member: "valid \<in> set checkpoints"
  shows "\<exists>s'. fetchIteration handler s = Some (Completed s')
           \<and> requests s' = requests s @
                 [FetchRequest (lastKnownTransactionNumber s) (lastKnownTransactionTimeHash s),
                  FirstValidRequest checkpoints]
           \<and> moreTransactions s' = moreTransactions s
           \<and> fetchLoop handler s
               = (if moreTransactions s then fetchLoop handler s' else Some (Completed s'))
           \<and> getLastTransaction (transactionStore s') = Some valid
           \<and> lastKnownTransaction s' = Some valid
           \<and> (\<forall>t out. lastKnownTransaction t = lastKnownTransaction s'
                        \<and> fetchIteration handler t = Some out
                 \<longrightarrow> requests (reached out) ! length (requests t)
                       = FetchRequest (Some (transactionNumber valid))
                           (Some (transactionTimeHash valid)))"
proof -
  let ?u1 = "snd (handleFetchRequest handler (upstream s) (lastKnownTransactionNumber s)
                    (lastKnownTransactionTimeHash s))"
  let ?s2 = "s\<lparr>upstream := ?u1,
                requests := requests s @
                  [FetchRequest (lastKnownTransactionNumber s)
                     (lastKnownTransactionTimeHash s)],
                blockReorganizationDetected := True\<rparr>"
  let ?s' = "?s2\<lparr>upstream := snd (handleFirstValidRequest handler (upstream ?s2) checkpoints),
                requests := requests ?s2 @ [FirstValidRequest checkpoints],
                transactionStore :=
                  filter (\<lambda>t. transactionNumber t \<le> transactionNumber valid)
                    (transactionStore ?s2),
                lastKnownTransaction := Some valid\<rparr>"
  have sorted2: "sorted_wrt (<) (map transactionNumber (transactionStore ?s2))"
    using sorted by simp
  have sampled2: "getExponentiallySpacedTransactions (transactionStore ?s2) = Some checkpoints"
    using sampled by simp
  have answer2: "fst (handleFirstValidRequest handler (upstream ?s2) checkpoints)
                   = Inr (FirstValidSucceeded valid)"
    using answer by simp
  note revert = RevertInvalidTransactions_truncates[OF sorted2 sampled2 answer2 member]
  have iteration: "fetchIteration handler s = Some (Completed ?s')"
    by (simp only: fetchIteration_signal[OF signal] revert(1))
  have tail: "getLastTransaction (transactionStore ?s') = Some valid"
    using revert(2) by simp
  have next_fetch:
    "\<forall>t out. lastKnownTransaction t = lastKnownTransaction ?s'
                \<and> fetchIteration handler t = Some out
        \<longrightarrow> requests (reached out) ! length (requests t)
              = FetchRequest (Some (transactionNumber valid)) (Some (transactionTimeHash valid))"
  proof (intro allI impI)
    fix t :: "'a BlockchainService" and out
    assume a: "lastKnownTransaction t = lastKnownTransaction ?s'
                \<and> fetchIteration handler t = Some out"
    then have known: "lastKnownTransaction t = Some valid" by simp
    from a fetchIteration_requests[of handler t out]
    obtain later where "requests (reached out)
           = requests t @ FetchRequest (lastKnownTransactionNumber t)
                            (lastKnownTransactionTimeHash t) # later"
      by blast
    then show "requests (reached out) ! length (requests t)
              = FetchRequest (Some (transactionNumber valid)) (Some (transactionTimeHash valid))"
      by (simp add: known lastKnownTransactionNumber_def lastKnownTransactionTimeHash_def)
  qed
  have "requests ?s' = requests s @
                 [FetchRequest (lastKnownTransactionNumber s) (lastKnownTransactionTimeHash s),
                  FirstValidRequest checkpoints]"
    "moreTransactions ?s' = moreTransactions s"
    "lastKnownTransaction ?s' = Some valid"
    by simp_all
  moreover have "fetchLoop handler s
               = (if moreTransactions s then fetchLoop handler ?s' else Some (Completed ?s'))"
    using fetchLoop_step[OF iteration] by simp
  ultimately show ?thesis
    using iteration tail next_fetch by blast
qed

lemma fetchIteration_signal_reverts:
  assumes signal:
      "fst (handleFetchRequest handler (upstream s) (lastKnownTransactionNumber s)
              (lastKnownTransactionTimeHash s))
         = Inr (FetchBadRequest ''invalid_transaction_number_or_time_hash'')"
  shows "\<exists>out checkpoints.
           fetchIteration handler s = Some out
           \<and> requests (reached out) = requests s @
                 [FetchRequest (lastKnownTransactionNumber s) (lastKnownTransactionTimeHash s),
                  FirstValidRequest checkpoints]
           \<and> moreTransactions (reached out) = moreTransactions s
           \<and> fetchLoop handler s
               = (case out of
                    Completed s' \<Rightarrow>
                      if moreTransactions s then fetchLoop handler s' else Some out
                  | Threw thrown s' \<Rightarrow> Some out)"
proof -
  let ?s2 = "s\<lparr>upstream := snd (handleFetchRequest handler (upstream s)
                                   (lastKnownTransactionNumber s)
                                   (lastKnownTransactionTimeHash s)),
                requests := requests s @
                  [FetchRequest (lastKnownTransactionNumber s)
                     (lastKnownTransactionTimeHash s)],
                blockReorganizationDetected := True\<rparr>"
  from RevertInvalidTransactions_returns[of ?s2 handler]
  obtain out checkpoints where out: "RevertInvalidTransactions handler ?s2 = Some out"
    "requests (reached out) = requests ?s2 @ [FirstValidRequest checkpoints]"
    "moreTransactions (reached out) = moreTransactions ?s2"
    by blast
  have iteration: "fetchIteration handler s = Some out"
    by (simp only: fetchIteration_signal[OF signal] out(1))
  have loop: "fetchLoop handler s
               = (case out of
                    Completed s' \<Rightarrow>
                      if moreTransactions s then fetchLoop handler s' else Some out
                  | Threw thrown s' \<Rightarrow> Some out)"
  proof (cases out)
    case (Completed s')
    with out(3) have "moreTransactions s' = moreTransactions s" by simp
    with Completed show ?thesis
      by (subst fetchLoop.simps) (simp add: iteration)
  next
    case (Threw thrown s')
    then show ?thesis
      by (subst fetchLoop.simps) (simp add: iteration)
  qed
  from iteration out(2,3) loop show ?thesis by auto
qed

text \<open>
  C5 (as amended). When a fetch answers with the reorganization signal, fork resolution runs in
  the same pass of the loop, right after the fetch and before the loop condition is looked at.
  That condition is the \<^verbatim>\<open>moreTransactions\<close> left by the earlier passes of the cycle (false
  on the first pass), so the loop goes on in the same cycle only if it was already true, and
  the cycle ends otherwise. When fork resolution succeeds with one of the checkpoints sent (on
  a log with strictly increasing numbers), that transaction is the new tail of the truncated
  log and is \<^verbatim>\<open>lastKnownTransaction\<close>, and the next fetch that is issued from any state
  with this \<^verbatim>\<open>lastKnownTransaction\<close>, in this cycle or in a later one, has its number and
  time hash as reference.
\<close>

theorem reorg_signal_runs_fork_resolution:
  "(fst (handleFetchRequest handler (upstream s) (lastKnownTransactionNumber s)
           (lastKnownTransactionTimeHash s))
      = Inr (FetchBadRequest ''invalid_transaction_number_or_time_hash'')
    \<longrightarrow> (\<exists>out checkpoints.
           fetchIteration handler s = Some out
           \<and> requests (reached out) = requests s @
                 [FetchRequest (lastKnownTransactionNumber s) (lastKnownTransactionTimeHash s),
                  FirstValidRequest checkpoints]
           \<and> moreTransactions (reached out) = moreTransactions s
           \<and> fetchLoop handler s
               = (case out of
                    Completed s' \<Rightarrow>
                      if moreTransactions s then fetchLoop handler s' else Some out
                  | Threw thrown s' \<Rightarrow> Some out)))
   \<and> (fst (handleFetchRequest handler (upstream s) (lastKnownTransactionNumber s)
              (lastKnownTransactionTimeHash s))
         = Inr (FetchBadRequest ''invalid_transaction_number_or_time_hash'')
       \<and> sorted_wrt (<) (map transactionNumber (transactionStore s))
       \<and> getExponentiallySpacedTransactions (transactionStore s) = Some sent
       \<and> fst (handleFirstValidRequest handler
                 (snd (handleFetchRequest handler (upstream s) (lastKnownTransactionNumber s)
                         (lastKnownTransactionTimeHash s)))
                 sent)
            = Inr (FirstValidSucceeded valid)
       \<and> valid \<in> set sent
      \<longrightarrow> (\<exists>s'. fetchIteration handler s = Some (Completed s')
             \<and> requests s' = requests s @
                 [FetchRequest (lastKnownTransactionNumber s) (lastKnownTransactionTimeHash s),
                  FirstValidRequest sent]
             \<and> getLastTransaction (transactionStore s') = Some valid
             \<and> lastKnownTransaction s' = Some valid
             \<and> (\<forall>t out. lastKnownTransaction t = lastKnownTransaction s'
                          \<and> fetchIteration handler t = Some out
                   \<longrightarrow> requests (reached out) ! length (requests t)
                         = FetchRequest (Some (transactionNumber valid))
                             (Some (transactionTimeHash valid)))))"
proof (intro conjI impI)
  assume "fst (handleFetchRequest handler (upstream s) (lastKnownTransactionNumber s)
           (lastKnownTransactionTimeHash s))
      = Inr (FetchBadRequest ''invalid_transaction_number_or_time_hash'')"
  then show "\<exists>out checkpoints.
           fetchIteration handler s = Some out
           \<and> requests (reached out) = requests s @
                 [FetchRequest (lastKnownTransactionNumber s) (lastKnownTransactionTimeHash s),
                  FirstValidRequest checkpoints]
           \<and> moreTransactions (reached out) = moreTransactions s
           \<and> fetchLoop handler s
               = (case out of
                    Completed s' \<Rightarrow>
                      if moreTransactions s then fetchLoop handler s' else Some out
                  | Threw thrown s' \<Rightarrow> Some out)"
    by (rule fetchIteration_signal_reverts)
next
  assume "fst (handleFetchRequest handler (upstream s) (lastKnownTransactionNumber s)
              (lastKnownTransactionTimeHash s))
         = Inr (FetchBadRequest ''invalid_transaction_number_or_time_hash'')
       \<and> sorted_wrt (<) (map transactionNumber (transactionStore s))
       \<and> getExponentiallySpacedTransactions (transactionStore s) = Some sent
       \<and> fst (handleFirstValidRequest handler
                 (snd (handleFetchRequest handler (upstream s) (lastKnownTransactionNumber s)
                         (lastKnownTransactionTimeHash s)))
                 sent)
            = Inr (FirstValidSucceeded valid)
       \<and> valid \<in> set sent"
  then have a: "fst (handleFetchRequest handler (upstream s) (lastKnownTransactionNumber s)
              (lastKnownTransactionTimeHash s))
         = Inr (FetchBadRequest ''invalid_transaction_number_or_time_hash'')"
    "sorted_wrt (<) (map transactionNumber (transactionStore s))"
    "getExponentiallySpacedTransactions (transactionStore s) = Some sent"
    "fst (handleFirstValidRequest handler
                 (snd (handleFetchRequest handler (upstream s) (lastKnownTransactionNumber s)
                         (lastKnownTransactionTimeHash s)))
                 sent)
            = Inr (FirstValidSucceeded valid)"
    "valid \<in> set sent"
    by simp_all
  from fetchIteration_signal_truncates[OF a]
  show "\<exists>s'. fetchIteration handler s = Some (Completed s')
             \<and> requests s' = requests s @
                 [FetchRequest (lastKnownTransactionNumber s) (lastKnownTransactionTimeHash s),
                  FirstValidRequest sent]
             \<and> getLastTransaction (transactionStore s') = Some valid
             \<and> lastKnownTransaction s' = Some valid
             \<and> (\<forall>t out. lastKnownTransaction t = lastKnownTransaction s'
                          \<and> fetchIteration handler t = Some out
                   \<longrightarrow> requests (reached out) ! length (requests t)
                         = FetchRequest (Some (transactionNumber valid))
                             (Some (transactionTimeHash valid)))"
    by blast
qed

lemmas run_simps =
  fetchIteration_def handleReadResult_def RevertInvalidTransactions_def copied_fields
  storeFetchedTransaction_def addTransaction_cases
  startedService_def startPeriodicProcessing_def getLastTransaction_last
  scriptedHandler_def sampleTransaction_number sampleTransaction_timeHash
  lastKnownTransactionNumber_def lastKnownTransactionTimeHash_def
  removeTransactionsLaterThan_def binarySearch_def compareTransactionAndTransactionNumber_def

theorem reorg_signal_runs_fork_resolution_witness:
  "sorted_wrt (<) (map transactionNumber
      [sampleTransaction 1, sampleTransaction 2, sampleTransaction 3, sampleTransaction 4,
       sampleTransaction 5])
   \<and> sampleTransaction 4 \<in> set [sampleTransaction 5, sampleTransaction 4, sampleTransaction 2]
   \<and> map_option (requests \<circ> reached)
        (fetchIteration (scriptedHandler (FirstValidSucceeded (sampleTransaction 4)))
           (startedService
              [sampleTransaction 1, sampleTransaction 2, sampleTransaction 3,
               sampleTransaction 4, sampleTransaction 5]
              [FetchBadRequest ''invalid_transaction_number_or_time_hash'']))
       = Some [FetchRequest (Some 5) (Some ''hash''),
               FirstValidRequest [sampleTransaction 5, sampleTransaction 4, sampleTransaction 2]]
   \<and> map_option (lastKnownTransaction \<circ> reached)
        (fetchIteration (scriptedHandler (FirstValidSucceeded (sampleTransaction 4)))
           (startedService
              [sampleTransaction 1, sampleTransaction 2, sampleTransaction 3,
               sampleTransaction 4, sampleTransaction 5]
              [FetchBadRequest ''invalid_transaction_number_or_time_hash'']))
       = Some (Some (sampleTransaction 4))"
proof -
  let ?log = "[sampleTransaction 1, sampleTransaction 2, sampleTransaction 3,
               sampleTransaction 4, sampleTransaction 5]"
  let ?s = "startedService ?log [FetchBadRequest ''invalid_transaction_number_or_time_hash'']"
  let ?h = "scriptedHandler (FirstValidSucceeded (sampleTransaction 4))"
  let ?checkpoints = "[sampleTransaction 5, sampleTransaction 4, sampleTransaction 2]"
  have store: "transactionStore ?s = ?log" "requests ?s = []"
    "lastKnownTransactionNumber ?s = Some 5" "lastKnownTransactionTimeHash ?s = Some ''hash''"
    by (simp_all add: startedService_def startPeriodicProcessing_def getLastTransaction_last
          lastKnownTransactionNumber_def lastKnownTransactionTimeHash_def
          sampleTransaction_number sampleTransaction_timeHash)
  have signal: "fst (handleFetchRequest ?h (upstream ?s) (lastKnownTransactionNumber ?s)
                       (lastKnownTransactionTimeHash ?s))
                  = Inr (FetchBadRequest ''invalid_transaction_number_or_time_hash'')"
    by (simp add: scriptedHandler_def startedService_def startPeriodicProcessing_def)
  have sorted: "sorted_wrt (<) (map transactionNumber (transactionStore ?s))"
    by (simp add: store sampleTransaction_number)
  have sampled: "getExponentiallySpacedTransactions (transactionStore ?s) = Some ?checkpoints"
    by (simp only: store sample_log_checkpoints)
  have answer: "fst (handleFirstValidRequest ?h
                       (snd (handleFetchRequest ?h (upstream ?s) (lastKnownTransactionNumber ?s)
                               (lastKnownTransactionTimeHash ?s)))
                       ?checkpoints)
                  = Inr (FirstValidSucceeded (sampleTransaction 4))"
    by (simp add: scriptedHandler_def)
  have member: "sampleTransaction 4 \<in> set ?checkpoints" by simp
  from reorg_signal_runs_fork_resolution
         [where handler = ?h and s = ?s and sent = ?checkpoints
            and valid = "sampleTransaction 4"]
       signal sorted sampled answer member
  obtain s' where s': "fetchIteration ?h ?s = Some (Completed s')"
    "requests s' = requests ?s @
       [FetchRequest (lastKnownTransactionNumber ?s) (lastKnownTransactionTimeHash ?s),
        FirstValidRequest ?checkpoints]"
    "lastKnownTransaction s' = Some (sampleTransaction 4)"
    by blast
  have sent: "map_option (requests \<circ> reached) (fetchIteration ?h ?s)
       = Some [FetchRequest (Some 5) (Some ''hash''), FirstValidRequest ?checkpoints]"
    by (simp add: s'(1,2) store)
  have known: "map_option (lastKnownTransaction \<circ> reached) (fetchIteration ?h ?s)
       = Some (Some (sampleTransaction 4))"
    by (simp add: s'(1,3))
  from sorted[unfolded store] member sent known show ?thesis by blast
qed

text \<open>
  A cycle whose first fetch is answered with the reorganization signal: fork resolution runs and
  cuts the log at transaction 4, and the cycle ends there. Only one fetch was sent in the cycle,
  and the upstream's next answer is still waiting.
\<close>

theorem reorg_signal_loop_counterexample:
  "processTransactions (scriptedHandler (FirstValidSucceeded (sampleTransaction 4)))
     (startedService
        [sampleTransaction 1, sampleTransaction 2, sampleTransaction 3, sampleTransaction 4,
         sampleTransaction 5]
        [FetchBadRequest ''invalid_transaction_number_or_time_hash'',
         FetchSucceeded [sampleTransaction 6] False])
   = Some \<lparr>transactionStore =
             [sampleTransaction 1, sampleTransaction 2, sampleTransaction 3, sampleTransaction 4],
           lastKnownTransaction = Some (sampleTransaction 4),
           upstream = [FetchSucceeded [sampleTransaction 6] False],
           blockReorganizationDetected = True,
           moreTransactions = False,
           requests = [FetchRequest (Some 5) (Some ''hash''),
                       FirstValidRequest
                         [sampleTransaction 5, sampleTransaction 4, sampleTransaction 2]],
           consoleErrors = []\<rparr>"
  by (simp add: processTransactions_def fetchLoop.simps run_simps sample_log_checkpoints)

lemma processTransactions_last_page:
  assumes page: "fst (handleFetchRequest handler (upstream s) (lastKnownTransactionNumber s)
                        (lastKnownTransactionTimeHash s)) = Inr (FetchSucceeded page False)"
  shows "\<exists>s'. processTransactions handler s = Some s'
           \<and> \<not> blockReorganizationDetected s'
           \<and> \<not> moreTransactions s'
           \<and> requests s' = requests s @
                 [FetchRequest (lastKnownTransactionNumber s) (lastKnownTransactionTimeHash s)]
           \<and> consoleErrors s' = consoleErrors s"
proof -
  let ?s0 = "s\<lparr>blockReorganizationDetected := False, moreTransactions := False\<rparr>"
  let ?s1 = "?s0\<lparr>upstream := snd (handleFetchRequest handler (upstream ?s0)
                                    (lastKnownTransactionNumber ?s0)
                                    (lastKnownTransactionTimeHash ?s0)),
                requests := requests ?s0 @
                  [FetchRequest (lastKnownTransactionNumber ?s0)
                     (lastKnownTransactionTimeHash ?s0)]\<rparr>"
  let ?s2 = "handleReadResult (FetchSucceeded page False) ?s1"
  have same: "lastKnownTransactionNumber ?s0 = lastKnownTransactionNumber s"
    "lastKnownTransactionTimeHash ?s0 = lastKnownTransactionTimeHash s"
    by (simp_all add: lastKnownTransactionNumber_def lastKnownTransactionTimeHash_def)
  have page0: "fst (handleFetchRequest handler (upstream ?s0) (lastKnownTransactionNumber ?s0)
                        (lastKnownTransactionTimeHash ?s0)) = Inr (FetchSucceeded page False)"
    using page by (simp add: same)
  have frame: "\<not> blockReorganizationDetected ?s2" "\<not> moreTransactions ?s2"
    "requests ?s2 = requests s @
       [FetchRequest (lastKnownTransactionNumber s) (lastKnownTransactionTimeHash s)]"
    "consoleErrors ?s2 = consoleErrors s"
    by (simp_all add: handleReadResult_def storeFetchedTransactions_frame same)
  have pass: "fetchIteration handler ?s0 = Some (Completed ?s2)"
    using frame(1) by (simp add: fetchIteration_answered[OF page0] Let_def)
  have "fetchLoop handler ?s0 = Some (Completed ?s2)"
    using fetchLoop_step[OF pass] frame(2) by simp
  then have "processTransactions handler s = Some ?s2"
    by (simp add: processTransactions_def)
  with frame show ?thesis by blast
qed

lemma processTransactions_signal:
  assumes signal: "fst (handleFetchRequest handler (upstream s) (lastKnownTransactionNumber s)
                          (lastKnownTransactionTimeHash s))
                     = Inr (FetchBadRequest ''invalid_transaction_number_or_time_hash'')"
  shows "\<exists>s' checkpoints. processTransactions handler s = Some s'
           \<and> blockReorganizationDetected s'
           \<and> requests s' = requests s @
                 [FetchRequest (lastKnownTransactionNumber s) (lastKnownTransactionTimeHash s),
                  FirstValidRequest checkpoints]"
proof -
  let ?s0 = "s\<lparr>blockReorganizationDetected := False, moreTransactions := False\<rparr>"
  let ?s2 = "?s0\<lparr>upstream := snd (handleFetchRequest handler (upstream ?s0)
                                    (lastKnownTransactionNumber ?s0)
                                    (lastKnownTransactionTimeHash ?s0)),
                requests := requests ?s0 @
                  [FetchRequest (lastKnownTransactionNumber ?s0)
                     (lastKnownTransactionTimeHash ?s0)],
                blockReorganizationDetected := True\<rparr>"
  have same: "lastKnownTransactionNumber ?s0 = lastKnownTransactionNumber s"
    "lastKnownTransactionTimeHash ?s0 = lastKnownTransactionTimeHash s"
    by (simp_all add: lastKnownTransactionNumber_def lastKnownTransactionTimeHash_def)
  have signal0: "fst (handleFetchRequest handler (upstream ?s0) (lastKnownTransactionNumber ?s0)
                        (lastKnownTransactionTimeHash ?s0))
                   = Inr (FetchBadRequest ''invalid_transaction_number_or_time_hash'')"
    using signal by (simp add: same)
  from RevertInvalidTransactions_returns[of ?s2 handler]
  obtain out checkpoints where out: "RevertInvalidTransactions handler ?s2 = Some out"
    "requests (reached out) = requests ?s2 @ [FirstValidRequest checkpoints]"
    "blockReorganizationDetected (reached out) = blockReorganizationDetected ?s2"
    "moreTransactions (reached out) = moreTransactions ?s2"
    by blast
  have pass: "fetchIteration handler ?s0 = Some out"
    by (simp only: fetchIteration_signal[OF signal0] out(1))
  have sent: "requests (reached out) = requests s @
                 [FetchRequest (lastKnownTransactionNumber s) (lastKnownTransactionTimeHash s),
                  FirstValidRequest checkpoints]"
    using out(2) by (simp add: same)
  have flag: "blockReorganizationDetected (reached out)" using out(3) by simp
  have stop: "\<not> moreTransactions (reached out)" using out(4) by simp
  have loop: "fetchLoop handler ?s0 = Some out"
  proof (cases out)
    case (Completed s')
    with stop have "\<not> moreTransactions s'" by simp
    with Completed show ?thesis by (subst fetchLoop.simps) (simp add: pass)
  next
    case (Threw thrown s')
    then show ?thesis by (subst fetchLoop.simps) (simp add: pass)
  qed
  show ?thesis
  proof (cases out)
    case (Completed s')
    with loop have "processTransactions handler s = Some s'"
      by (simp add: processTransactions_def)
    with Completed sent flag show ?thesis by auto
  next
    case (Threw thrown s')
    with loop have "processTransactions handler s
                      = Some (s'\<lparr>consoleErrors := consoleErrors s' @ [thrown]\<rparr>)"
      by (simp add: processTransactions_def)
    with Threw sent flag show ?thesis by auto
  qed
qed

text \<open>
  C10. Once \<^verbatim>\<open>blockReorganizationDetected\<close> is up, every pass of the loop whose fetch gets an
  answer, whatever the answer is, goes on to \<^verbatim>\<open>RevertInvalidTransactions\<close> (the first-valid
  request follows the fetch request) and leaves the flag up; the flag is still up in whatever
  state the loop ends; the pass in which the signal arrives raises it; a pass that starts with
  the flag down and gets a page of transactions sends no first-valid request. The flag is put
  down only where a cycle begins: a cycle entered from a state in which the flag is up, whose
  first fetch is answered with a last page, returns having sent the fetch request alone, with
  the flag down; a cycle whose first fetch is answered with the signal returns with the flag
  up, the first-valid request sent after the fetch request; and a cycle runs the same from a
  state with the flag up as from that state with the flag down.
\<close>

theorem reorganization_flag_stays_set:
  "(blockReorganizationDetected s
      \<and> fst (handleFetchRequest handler (upstream s) (lastKnownTransactionNumber s)
                (lastKnownTransactionTimeHash s)) = Inr readResult
    \<longrightarrow> (\<exists>out checkpoints.
            fetchIteration handler s = Some out
            \<and> blockReorganizationDetected (reached out)
            \<and> requests (reached out) = requests s @
                 [FetchRequest (lastKnownTransactionNumber s) (lastKnownTransactionTimeHash s),
                  FirstValidRequest checkpoints]))
   \<and> (blockReorganizationDetected s \<and> fetchLoop handler s = Some final
        \<longrightarrow> blockReorganizationDetected (reached final))
   \<and> (fst (handleFetchRequest handler (upstream s) (lastKnownTransactionNumber s)
                (lastKnownTransactionTimeHash s))
          = Inr (FetchBadRequest ''invalid_transaction_number_or_time_hash'')
        \<longrightarrow> (\<exists>out. fetchIteration handler s = Some out
                   \<and> blockReorganizationDetected (reached out)))
   \<and> (\<not> blockReorganizationDetected s
        \<and> fst (handleFetchRequest handler (upstream s) (lastKnownTransactionNumber s)
                (lastKnownTransactionTimeHash s)) = Inr (FetchSucceeded page moreInBody)
        \<longrightarrow> (\<exists>s'. fetchIteration handler s = Some (Completed s')
                  \<and> \<not> blockReorganizationDetected s'
                  \<and> requests s' = requests s @
                       [FetchRequest (lastKnownTransactionNumber s)
                          (lastKnownTransactionTimeHash s)]))
   \<and> processTransactions handler (s\<lparr>blockReorganizationDetected := True\<rparr>)
       = processTransactions handler (s\<lparr>blockReorganizationDetected := False\<rparr>)
   \<and> (fst (handleFetchRequest handler (upstream s) (lastKnownTransactionNumber s)
                (lastKnownTransactionTimeHash s)) = Inr (FetchSucceeded lastPage False)
        \<longrightarrow> (\<exists>s'. processTransactions handler (s\<lparr>blockReorganizationDetected := True\<rparr>)
                    = Some s'
                  \<and> \<not> blockReorganizationDetected s'
                  \<and> requests s' = requests s @
                       [FetchRequest (lastKnownTransactionNumber s)
                          (lastKnownTransactionTimeHash s)]))
   \<and> (fst (handleFetchRequest handler (upstream s) (lastKnownTransactionNumber s)
                (lastKnownTransactionTimeHash s))
          = Inr (FetchBadRequest ''invalid_transaction_number_or_time_hash'')
        \<longrightarrow> (\<exists>s' checkpoints. processTransactions handler s = Some s'
                  \<and> blockReorganizationDetected s'
                  \<and> requests s' = requests s @
                       [FetchRequest (lastKnownTransactionNumber s)
                          (lastKnownTransactionTimeHash s),
                        FirstValidRequest checkpoints]))"
proof (intro conjI impI)
  let ?s1 = "s\<lparr>upstream := snd (handleFetchRequest handler (upstream s)
                                   (lastKnownTransactionNumber s)
                                   (lastKnownTransactionTimeHash s)),
               requests := requests s @
                 [FetchRequest (lastKnownTransactionNumber s)
                    (lastKnownTransactionTimeHash s)]\<rparr>"
  {
    assume a: "blockReorganizationDetected s
      \<and> fst (handleFetchRequest handler (upstream s) (lastKnownTransactionNumber s)
                (lastKnownTransactionTimeHash s)) = Inr readResult"
    let ?s2 = "handleReadResult readResult ?s1"
    have flag2: "blockReorganizationDetected ?s2"
      by (rule handleReadResult_flag) (simp add: a)
    have requests2: "requests ?s2 = requests s @
                 [FetchRequest (lastKnownTransactionNumber s) (lastKnownTransactionTimeHash s)]"
      by (simp add: handleReadResult_frame)
    from a have "fetchIteration handler s = RevertInvalidTransactions handler ?s2"
      using fetchIteration_answered[of handler s readResult] flag2 by (simp add: Let_def)
    moreover from RevertInvalidTransactions_returns[of ?s2 handler]
    obtain out checkpoints where "RevertInvalidTransactions handler ?s2 = Some out"
      "requests (reached out) = requests ?s2 @ [FirstValidRequest checkpoints]"
      "blockReorganizationDetected (reached out) = blockReorganizationDetected ?s2"
      by blast
    ultimately show "\<exists>out checkpoints.
            fetchIteration handler s = Some out
            \<and> blockReorganizationDetected (reached out)
            \<and> requests (reached out) = requests s @
                 [FetchRequest (lastKnownTransactionNumber s) (lastKnownTransactionTimeHash s),
                  FirstValidRequest checkpoints]"
      using flag2 requests2 by auto
  }
  {
    assume "blockReorganizationDetected s \<and> fetchLoop handler s = Some final"
    then show "blockReorganizationDetected (reached final)"
      using fetchLoop_flag[of handler s final] by blast
  }
  {
    assume signal: "fst (handleFetchRequest handler (upstream s) (lastKnownTransactionNumber s)
                (lastKnownTransactionTimeHash s))
          = Inr (FetchBadRequest ''invalid_transaction_number_or_time_hash'')"
    let ?s2 = "?s1\<lparr>blockReorganizationDetected := True\<rparr>"
    from RevertInvalidTransactions_returns[of ?s2 handler]
    obtain out where "RevertInvalidTransactions handler ?s2 = Some out"
      "blockReorganizationDetected (reached out) = blockReorganizationDetected ?s2"
      by blast
    then show "\<exists>out. fetchIteration handler s = Some out
                   \<and> blockReorganizationDetected (reached out)"
      by (simp add: fetchIteration_signal[OF signal])
  }
  {
    assume a: "\<not> blockReorganizationDetected s
        \<and> fst (handleFetchRequest handler (upstream s) (lastKnownTransactionNumber s)
                (lastKnownTransactionTimeHash s)) = Inr (FetchSucceeded page moreInBody)"
    then have answered: "fst (handleFetchRequest handler (upstream s)
                (lastKnownTransactionNumber s) (lastKnownTransactionTimeHash s))
                  = Inr (FetchSucceeded page moreInBody)" by simp
    from a show "\<exists>s'. fetchIteration handler s = Some (Completed s')
                  \<and> \<not> blockReorganizationDetected s'
                  \<and> requests s' = requests s @
                       [FetchRequest (lastKnownTransactionNumber s)
                          (lastKnownTransactionTimeHash s)]"
      by (simp add: fetchIteration_answered[OF answered] handleReadResult_def
            storeFetchedTransactions_frame Let_def)
  }
  show "processTransactions handler (s\<lparr>blockReorganizationDetected := True\<rparr>)
       = processTransactions handler (s\<lparr>blockReorganizationDetected := False\<rparr>)"
    by (simp add: processTransactions_def)
  {
    let ?up = "s\<lparr>blockReorganizationDetected := True\<rparr>"
    assume "fst (handleFetchRequest handler (upstream s) (lastKnownTransactionNumber s)
                (lastKnownTransactionTimeHash s)) = Inr (FetchSucceeded lastPage False)"
    then have "fst (handleFetchRequest handler (upstream ?up) (lastKnownTransactionNumber ?up)
                (lastKnownTransactionTimeHash ?up)) = Inr (FetchSucceeded lastPage False)"
      by (simp add: lastKnownTransactionNumber_def lastKnownTransactionTimeHash_def)
    from processTransactions_last_page[OF this]
    obtain s' where "processTransactions handler ?up = Some s'"
      "\<not> blockReorganizationDetected s'"
      "requests s' = requests ?up @
         [FetchRequest (lastKnownTransactionNumber ?up) (lastKnownTransactionTimeHash ?up)]"
      by blast
    then show "\<exists>s'. processTransactions handler (s\<lparr>blockReorganizationDetected := True\<rparr>)
                    = Some s'
                  \<and> \<not> blockReorganizationDetected s'
                  \<and> requests s' = requests s @
                       [FetchRequest (lastKnownTransactionNumber s)
                          (lastKnownTransactionTimeHash s)]"
      by (simp add: lastKnownTransactionNumber_def lastKnownTransactionTimeHash_def)
  }
  {
    assume "fst (handleFetchRequest handler (upstream s) (lastKnownTransactionNumber s)
                (lastKnownTransactionTimeHash s))
          = Inr (FetchBadRequest ''invalid_transaction_number_or_time_hash'')"
    then show "\<exists>s' checkpoints. processTransactions handler s = Some s'
                  \<and> blockReorganizationDetected s'
                  \<and> requests s' = requests s @
                       [FetchRequest (lastKnownTransactionNumber s)
                          (lastKnownTransactionTimeHash s),
                        FirstValidRequest checkpoints]"
      by (rule processTransactions_signal)
  }
qed

theorem reorganization_flag_stays_set_witness:
  "blockReorganizationDetected
     ((startedService [sampleTransaction 1, sampleTransaction 2]
         [FetchSucceeded [sampleTransaction 3] True])
      \<lparr>blockReorganizationDetected := True, moreTransactions := True\<rparr>)
   \<and> map_option (blockReorganizationDetected \<circ> reached)
        (fetchIteration (scriptedHandler (FirstValidSucceeded (sampleTransaction 2)))
           ((startedService [sampleTransaction 1, sampleTransaction 2]
               [FetchSucceeded [sampleTransaction 3] True])
            \<lparr>blockReorganizationDetected := True, moreTransactions := True\<rparr>))
       = Some True
   \<and> map_option (requests \<circ> reached)
        (fetchIteration (scriptedHandler (FirstValidSucceeded (sampleTransaction 2)))
           ((startedService [sampleTransaction 1, sampleTransaction 2]
               [FetchSucceeded [sampleTransaction 3] True])
            \<lparr>blockReorganizationDetected := True, moreTransactions := True\<rparr>))
       = Some [FetchRequest (Some 2) (Some ''hash''),
               FirstValidRequest [sampleTransaction 3, sampleTransaction 2]]
   \<and> map_option (requests \<circ> reached)
        (fetchLoop (scriptedHandler (FirstValidSucceeded (sampleTransaction 2)))
           ((startedService [sampleTransaction 1, sampleTransaction 2]
               [FetchSucceeded [sampleTransaction 3] True])
            \<lparr>blockReorganizationDetected := True, moreTransactions := True\<rparr>))
       = Some [FetchRequest (Some 2) (Some ''hash''),
               FirstValidRequest [sampleTransaction 3, sampleTransaction 2],
               FetchRequest (Some 2) (Some ''hash''),
               FirstValidRequest [sampleTransaction 2, sampleTransaction 1]]
   \<and> map_option (blockReorganizationDetected \<circ> reached)
        (fetchLoop (scriptedHandler (FirstValidSucceeded (sampleTransaction 2)))
           ((startedService [sampleTransaction 1, sampleTransaction 2]
               [FetchSucceeded [sampleTransaction 3] True])
            \<lparr>blockReorganizationDetected := True, moreTransactions := True\<rparr>))
       = Some True
   \<and> blockReorganizationDetected
       ((startedService [sampleTransaction 1, sampleTransaction 2]
           [FetchSucceeded [sampleTransaction 3] False])
        \<lparr>blockReorganizationDetected := True\<rparr>)
   \<and> map_option blockReorganizationDetected
        (processTransactions (scriptedHandler (FirstValidSucceeded (sampleTransaction 2)))
           ((startedService [sampleTransaction 1, sampleTransaction 2]
               [FetchSucceeded [sampleTransaction 3] False])
            \<lparr>blockReorganizationDetected := True\<rparr>))
       = Some False
   \<and> map_option requests
        (processTransactions (scriptedHandler (FirstValidSucceeded (sampleTransaction 2)))
           ((startedService [sampleTransaction 1, sampleTransaction 2]
               [FetchSucceeded [sampleTransaction 3] False])
            \<lparr>blockReorganizationDetected := True\<rparr>))
       = Some [FetchRequest (Some 2) (Some ''hash'')]
   \<and> map_option transactionStore
        (processTransactions (scriptedHandler (FirstValidSucceeded (sampleTransaction 2)))
           ((startedService [sampleTransaction 1, sampleTransaction 2]
               [FetchSucceeded [sampleTransaction 3] False])
            \<lparr>blockReorganizationDetected := True\<rparr>))
       = Some [sampleTransaction 1, sampleTransaction 2, sampleTransaction 3]"
proof -
  let ?s = "(startedService [sampleTransaction 1, sampleTransaction 2]
               [FetchSucceeded [sampleTransaction 3] True])
            \<lparr>blockReorganizationDetected := True, moreTransactions := True\<rparr>"
  let ?h = "scriptedHandler (FirstValidSucceeded (sampleTransaction 2))"
  let ?base = "startedService [sampleTransaction 1, sampleTransaction 2]
                 [FetchSucceeded [sampleTransaction 3] False]"
  let ?up = "?base\<lparr>blockReorganizationDetected := True\<rparr>"
  note cycle = reorganization_flag_stays_set
                 [where s = ?base and handler = ?h and lastPage = "[sampleTransaction 3]"]
  have up: "blockReorganizationDetected ?up" by simp
  have base: "requests ?base = []" "lastKnownTransactionNumber ?base = Some 2"
    "lastKnownTransactionTimeHash ?base = Some ''hash''"
    by (simp_all add: startedService_def startPeriodicProcessing_def getLastTransaction_last
          lastKnownTransactionNumber_def lastKnownTransactionTimeHash_def
          sampleTransaction_number sampleTransaction_timeHash)
  have last_page: "fst (handleFetchRequest ?h (upstream ?base) (lastKnownTransactionNumber ?base)
                          (lastKnownTransactionTimeHash ?base))
                     = Inr (FetchSucceeded [sampleTransaction 3] False)"
    by (simp add: scriptedHandler_def startedService_def startPeriodicProcessing_def)
  from cycle last_page
  obtain c where c: "processTransactions ?h ?up = Some c"
    "\<not> blockReorganizationDetected c"
    "requests c = requests ?base @
       [FetchRequest (lastKnownTransactionNumber ?base) (lastKnownTransactionTimeHash ?base)]"
    by blast
  have down: "map_option blockReorganizationDetected (processTransactions ?h ?up) = Some False"
    by (simp add: c(1,2))
  have alone: "map_option requests (processTransactions ?h ?up)
                 = Some [FetchRequest (Some 2) (Some ''hash'')]"
    by (simp add: c(1,3) base)
  have kept: "map_option transactionStore (processTransactions ?h ?up)
                = Some [sampleTransaction 1, sampleTransaction 2, sampleTransaction 3]"
    by (simp add: processTransactions_def fetchLoop.simps run_simps)
  note inst = reorganization_flag_stays_set
                [where s = ?s and handler = ?h
                   and readResult = "FetchSucceeded [sampleTransaction 3] True"]
  have flag: "blockReorganizationDetected ?s" by simp
  have answered: "fst (handleFetchRequest ?h (upstream ?s) (lastKnownTransactionNumber ?s)
                         (lastKnownTransactionTimeHash ?s))
                    = Inr (FetchSucceeded [sampleTransaction 3] True)"
    by (simp add: scriptedHandler_def startedService_def startPeriodicProcessing_def)
  from inst flag answered
  obtain out where out: "fetchIteration ?h ?s = Some out"
    "blockReorganizationDetected (reached out)"
    by blast
  have sent: "map_option (requests \<circ> reached) (fetchIteration ?h ?s)
       = Some [FetchRequest (Some 2) (Some ''hash''),
               FirstValidRequest [sampleTransaction 3, sampleTransaction 2]]"
    by (simp add: run_simps three_log_checkpoints)
  have still: "map_option (blockReorganizationDetected \<circ> reached) (fetchIteration ?h ?s)
       = Some True"
    by (simp add: out)
  have all_sent: "map_option (requests \<circ> reached) (fetchLoop ?h ?s)
       = Some [FetchRequest (Some 2) (Some ''hash''),
               FirstValidRequest [sampleTransaction 3, sampleTransaction 2],
               FetchRequest (Some 2) (Some ''hash''),
               FirstValidRequest [sampleTransaction 2, sampleTransaction 1]]"
    by (simp add: fetchLoop.simps run_simps
          getExponentiallySpacedTransactions_def exponentiallySpacedLoop.simps)
  then obtain final where final: "fetchLoop ?h ?s = Some final" by auto
  with inst flag have "blockReorganizationDetected (reached final)" by blast
  with final have at_end: "map_option (blockReorganizationDetected \<circ> reached) (fetchLoop ?h ?s)
       = Some True"
    by simp
  from flag still sent all_sent at_end up down alone kept show ?thesis by blast
qed

text \<open>
  A whole cycle from the empty log. The second fetch is answered with the signal; the third and
  the fourth are answered with a page each, and each of them is followed by a first-valid
  request all the same, which here cuts the transaction just stored off again.
\<close>

lemma sticky_flag_cycle_example:
  "processTransactions (scriptedHandler (FirstValidSucceeded (sampleTransaction 2)))
     (startedService []
        [FetchSucceeded [sampleTransaction 1, sampleTransaction 2] True,
         FetchBadRequest ''invalid_transaction_number_or_time_hash'',
         FetchSucceeded [sampleTransaction 3] True,
         FetchSucceeded [sampleTransaction 4] False])
   = Some \<lparr>transactionStore = [sampleTransaction 1, sampleTransaction 2],
           lastKnownTransaction = Some (sampleTransaction 2),
           upstream = [],
           blockReorganizationDetected = True,
           moreTransactions = False,
           requests = [FetchRequest None None,
                       FetchRequest (Some 2) (Some ''hash''),
                       FirstValidRequest [sampleTransaction 2, sampleTransaction 1],
                       FetchRequest (Some 2) (Some ''hash''),
                       FirstValidRequest [sampleTransaction 3, sampleTransaction 2],
                       FetchRequest (Some 2) (Some ''hash''),
                       FirstValidRequest [sampleTransaction 4, sampleTransaction 2]],
           consoleErrors = []\<rparr>"
  by (simp add: processTransactions_def fetchLoop.simps run_simps getLastTransaction_Nil
        getExponentiallySpacedTransactions_def exponentiallySpacedLoop.simps)

section \<open>Invariants of a whole cycle\<close>

lemma increasing_RevertInvalidTransactions:
  assumes "sorted_wrt (<) (map transactionNumber (transactionStore s))"
    and "RevertInvalidTransactions handler s = Some out"
  shows "sorted_wrt (<) (map transactionNumber (transactionStore (reached out)))"
proof -
  obtain checkpoints
    where sampled: "getExponentiallySpacedTransactions (transactionStore s) = Some checkpoints"
    using getExponentiallySpacedTransactions_closed by blast
  from assms show ?thesis
    by (auto simp: RevertInvalidTransactions_request[OF sampled] Let_def
             split: sum.splits FirstValidResponse.splits
             dest: increasing_removeTransactionsLaterThan)
qed

lemma increasing_storeFetchedTransactions:
  "sorted_wrt (<) (map transactionNumber (transactionStore s))
   \<Longrightarrow> sorted_wrt (<) (map transactionNumber
         (transactionStore (storeFetchedTransactions ts s)))"
  by (induction ts arbitrary: s)
     (simp_all add: storeFetchedTransaction_def Let_def increasing_addTransaction)

lemma increasing_handleReadResult:
  "sorted_wrt (<) (map transactionNumber (transactionStore s))
   \<Longrightarrow> sorted_wrt (<) (map transactionNumber
         (transactionStore (handleReadResult readResult s)))"
  by (cases readResult)
     (simp_all add: handleReadResult_def increasing_storeFetchedTransactions)

lemma increasing_fetchIteration:
  assumes sorted: "sorted_wrt (<) (map transactionNumber (transactionStore s))"
    and run: "fetchIteration handler s = Some out"
  shows "sorted_wrt (<) (map transactionNumber (transactionStore (reached out)))"
proof (cases "fst (handleFetchRequest handler (upstream s) (lastKnownTransactionNumber s)
                  (lastKnownTransactionTimeHash s))")
  case (Inl thrown)
  from fetchIteration_thrown[OF Inl] run sorted show ?thesis by auto
next
  case (Inr readResult)
  let ?s2 = "handleReadResult readResult
               (s\<lparr>upstream := snd (handleFetchRequest handler (upstream s)
                                      (lastKnownTransactionNumber s)
                                      (lastKnownTransactionTimeHash s)),
                  requests := requests s @
                    [FetchRequest (lastKnownTransactionNumber s)
                       (lastKnownTransactionTimeHash s)]\<rparr>)"
  have sorted2: "sorted_wrt (<) (map transactionNumber (transactionStore ?s2))"
    by (rule increasing_handleReadResult) (simp add: sorted)
  show ?thesis
  proof (cases "blockReorganizationDetected ?s2")
    case True
    with fetchIteration_answered[OF Inr] run
    have "RevertInvalidTransactions handler ?s2 = Some out" by (simp add: Let_def)
    from increasing_RevertInvalidTransactions[OF sorted2 this] show ?thesis .
  next
    case False
    with fetchIteration_answered[OF Inr] run have "out = Completed ?s2" by (simp add: Let_def)
    with sorted2 show ?thesis by simp
  qed
qed

text \<open>
  The log of the service stays strictly increasing over a whole cycle, whatever the upstream
  answers; the service starts from the empty log.
\<close>

lemma increasing_processTransactions:
  assumes "sorted_wrt (<) (map transactionNumber (transactionStore s))"
    and "processTransactions handler s = Some s'"
  shows "sorted_wrt (<) (map transactionNumber (transactionStore s'))"
  using processTransactions_invariant
          [of handler s s' "\<lambda>s. sorted_wrt (<) (map transactionNumber (transactionStore s))",
           OF assms(2)]
        increasing_fetchIteration[of _ handler] assms(1)
  by simp

lemma cacheInvariant_storeFetchedTransaction:
  "cacheInvariant s \<Longrightarrow> cacheInvariant (storeFetchedTransaction t s)"
  by (simp add: cacheInvariant_def storeFetchedTransaction_def Let_def increasing_addTransaction)

lemma cacheInvariant_storeFetchedTransactions:
  "cacheInvariant s \<Longrightarrow> cacheInvariant (storeFetchedTransactions ts s)"
  by (induction ts arbitrary: s) (simp_all add: cacheInvariant_storeFetchedTransaction)

lemma cacheInvariant_handleReadResult:
  "cacheInvariant s \<Longrightarrow> cacheInvariant (handleReadResult readResult s)"
proof (cases readResult)
  case (FetchSucceeded page moreInBody)
  assume "cacheInvariant s"
  then have "cacheInvariant (s\<lparr>moreTransactions := moreInBody\<rparr>)"
    by (simp add: cacheInvariant_def)
  then show ?thesis
    by (simp add: FetchSucceeded handleReadResult_def cacheInvariant_storeFetchedTransactions)
qed (simp_all add: handleReadResult_def cacheInvariant_def)

lemma cacheInvariant_RevertInvalidTransactions:
  assumes honest: "answersFromCheckpoints handler"
    and inv: "cacheInvariant s"
    and run: "RevertInvalidTransactions handler s = Some out"
  shows "cacheInvariant (reached out)"
proof -
  obtain checkpoints
    where sampled: "getExponentiallySpacedTransactions (transactionStore s) = Some checkpoints"
    using getExponentiallySpacedTransactions_closed by blast
  from inv have sorted: "sorted_wrt (<) (map transactionNumber (transactionStore s))"
    by (simp add: cacheInvariant_def)
  show ?thesis
  proof (cases "fst (handleFirstValidRequest handler (upstream s) checkpoints)")
    case (Inl thrown)
    with run inv show ?thesis
      by (auto simp: RevertInvalidTransactions_request[OF sampled] cacheInvariant_def)
  next
    case (Inr answer)
    show ?thesis
    proof (cases answer)
      case FirstValidOtherStatus
      with Inr run inv show ?thesis
        by (auto simp: RevertInvalidTransactions_request[OF sampled] cacheInvariant_def)
    next
      case (FirstValidSucceeded valid)
      with Inr have answered: "fst (handleFirstValidRequest handler (upstream s) checkpoints)
                                 = Inr (FirstValidSucceeded valid)" by simp
      with honest have member: "valid \<in> set checkpoints"
        by (auto simp: answersFromCheckpoints_def)
      note cut = RevertInvalidTransactions_truncates[OF sorted sampled answered member]
      have "sorted_wrt (<) (map transactionNumber
              (filter (\<lambda>t. transactionNumber t \<le> transactionNumber valid) (transactionStore s)))"
        using sorted by (simp add: sorted_wrt_map sorted_wrt_filter)
      with cut run show ?thesis
        by (auto simp: cacheInvariant_def)
    qed
  qed
qed

lemma cacheInvariant_fetchIteration:
  assumes honest: "answersFromCheckpoints handler"
    and inv: "cacheInvariant s"
    and run: "fetchIteration handler s = Some out"
  shows "cacheInvariant (reached out)"
proof (cases "fst (handleFetchRequest handler (upstream s) (lastKnownTransactionNumber s)
                  (lastKnownTransactionTimeHash s))")
  case (Inl thrown)
  from fetchIteration_thrown[OF Inl] run inv show ?thesis
    by (auto simp: cacheInvariant_def)
next
  case (Inr readResult)
  let ?s1 = "s\<lparr>upstream := snd (handleFetchRequest handler (upstream s)
                                   (lastKnownTransactionNumber s)
                                   (lastKnownTransactionTimeHash s)),
               requests := requests s @
                 [FetchRequest (lastKnownTransactionNumber s)
                    (lastKnownTransactionTimeHash s)]\<rparr>"
  let ?s2 = "handleReadResult readResult ?s1"
  from inv have "cacheInvariant ?s1" by (simp add: cacheInvariant_def)
  then have inv2: "cacheInvariant ?s2" by (rule cacheInvariant_handleReadResult)
  show ?thesis
  proof (cases "blockReorganizationDetected ?s2")
    case True
    with fetchIteration_answered[OF Inr] run
    have "RevertInvalidTransactions handler ?s2 = Some out" by (simp add: Let_def)
    from cacheInvariant_RevertInvalidTransactions[OF honest inv2 this] show ?thesis .
  next
    case False
    with fetchIteration_answered[OF Inr] run have "out = Completed ?s2" by (simp add: Let_def)
    with inv2 show ?thesis by simp
  qed
qed

lemma cacheInvariant_fetchLoop:
  assumes "answersFromCheckpoints handler" "cacheInvariant s" "fetchLoop handler s = Some out"
  shows "cacheInvariant (reached out)"
  using fetchLoop_invariant[of handler s out cacheInvariant]
        cacheInvariant_fetchIteration[OF assms(1)] assms(2,3)
  by blast

text \<open>
  With an upstream whose first-valid answers are always among the checkpoints it was sent, a
  whole cycle keeps \<^verbatim>\<open>lastKnownTransaction\<close> equal to \<^verbatim>\<open>getLastTransaction()\<close>, however it
  ends.
\<close>

lemma cacheInvariant_processTransactions:
  assumes "answersFromCheckpoints handler" "cacheInvariant s"
    "processTransactions handler s = Some s'"
  shows "cacheInvariant s'"
proof (rule processTransactions_invariant[of handler s s' cacheInvariant, OF assms(3)])
  show "\<And>s out. cacheInvariant s \<Longrightarrow> fetchIteration handler s = Some out
          \<Longrightarrow> cacheInvariant (reached out)"
    by (rule cacheInvariant_fetchIteration[OF assms(1)])
  show "cacheInvariant (s\<lparr>blockReorganizationDetected := False, moreTransactions := False\<rparr>)"
    using assms(2) by (simp add: cacheInvariant_def)
  show "\<And>s thrown. cacheInvariant s
          \<Longrightarrow> cacheInvariant (s\<lparr>consoleErrors := consoleErrors s @ [thrown]\<rparr>)"
    by (simp add: cacheInvariant_def)
qed

lemma cacheInvariant_startedService: "cacheInvariant (startedService [] u)"
  by (simp add: cacheInvariant_def startedService_def startPeriodicProcessing_def)

end
